theory Spec2Isabelle
  imports Main
begin

section \<open>Paths, strings and the file system\<close>

text \<open>
  A shallow embedding of \<^verbatim>\<open>src/mongo/db/repair_database.cpp\<close>.  A
  \<^verbatim>\<open>boost::filesystem::path\<close> is its string.  The file system is a finite table from
  paths to entries; a regular file carries its size.
\<close>

type_synonym path = string

datatype entry = File nat | Dir

type_synonym fsys = "(path \<times> entry) list"

text \<open>\<^verbatim>\<open>operator/\<close> of boost paths: a separator is added unless the left side is empty
  or already ends in one, or the right side starts with one.\<close>

definition slash :: "path \<Rightarrow> string \<Rightarrow> path" where
  "slash a b =
     (if b = [] then a
      else if hd b = CHR ''/'' then a @ b
      else if a \<noteq> [] \<and> last a \<noteq> CHR ''/'' then a @ ''/'' @ b
      else a @ b)"

text \<open>\<^verbatim>\<open>p.leaf()\<close>: the last component of a path.\<close>

definition leaf :: "path \<Rightarrow> string" where
  "leaf p = rev (takeWhile (\<lambda>c. c \<noteq> CHR ''/'') (rev p))"

text \<open>What \<^verbatim>\<open>ss << i\<close> writes for a non-negative \<^verbatim>\<open>int\<close>, and for an
  \<^verbatim>\<open>intmax_t\<close>.\<close>

definition digit :: "nat \<Rightarrow> char" where
  "digit n = ''0123456789'' ! n"

fun decimal :: "nat \<Rightarrow> string" where
  "decimal n = (if n < 10 then [digit n] else decimal (n div 10) @ [digit (n mod 10)])"

declare decimal.simps [simp del]

definition decimalInt :: "int \<Rightarrow> string" where
  "decimalInt n = (if n < 0 then ''-'' @ decimal (nat (- n)) else decimal (nat n))"

text \<open>An \<^verbatim>\<open>intmax_t\<close> is a 64-bit signed integer: the value an arithmetic result has
  once it is stored in one (two's complement, wrapping modulo \<open>2 ^ 64\<close>).\<close>

definition intmax :: "int \<Rightarrow> int" where
  "intmax x = (x + 9223372036854775808) mod 18446744073709551616 - 9223372036854775808"

text \<open>Modelled from the spec: \<^verbatim>\<open>nsToDatabase\<close> (declared outside this file) strips the
  collection qualifier, the substring from the first dot onward.\<close>

definition nsToDatabase :: "string \<Rightarrow> string" where
  "nsToDatabase ns = takeWhile (\<lambda>c. c \<noteq> CHR ''.'') ns"

text \<open>Modelled from the spec: the \<^verbatim>\<open>NamespaceString\<close> accessors (declared outside this
  file).  The collection part follows the first dot; a system collection has a reserved
  \<^verbatim>\<open>system.*\<close> name.  Whether a namespace is normal is the engine's predicate, a field of
  the environment below.\<close>

definition coll :: "string \<Rightarrow> string" where
  "coll ns = drop 1 (dropWhile (\<lambda>c. c \<noteq> CHR ''.'') ns)"

definition isSystem :: "string \<Rightarrow> bool" where
  "isSystem ns = (take 7 (coll ns) = ''system.'')"

definition isSystemDotIndexes :: "string \<Rightarrow> bool" where
  "isSystemDotIndexes ns = (coll ns = ''system.indexes'')"

definition lookup :: "fsys \<Rightarrow> path \<Rightarrow> entry option" where
  "lookup f p = map_of f p"

definition isUnder :: "path \<Rightarrow> path \<Rightarrow> bool" where
  "isUnder d p = (p = d \<or> take (Suc (length d)) p = d @ ''/'')"

definition erase :: "path \<Rightarrow> fsys \<Rightarrow> fsys" where
  "erase p f = filter (\<lambda>kv. fst kv \<noteq> p) f"

definition eraseTree :: "path \<Rightarrow> fsys \<Rightarrow> fsys" where
  "eraseTree d f = filter (\<lambda>kv. \<not> isUnder d (fst kv)) f"

definition hasChildren :: "fsys \<Rightarrow> path \<Rightarrow> bool" where
  "hasChildren f d = (\<exists>kv \<in> set f. fst kv \<noteq> d \<and> isUnder d (fst kv))"

text \<open>\<^verbatim>\<open>p.parent_path()\<close>, and whether a path names an existing directory: the root and
  the current directory (the empty path) always do, any other one when the table says so.\<close>

definition parent_path :: "path \<Rightarrow> path" where
  "parent_path p =
     (if dropWhile (\<lambda>c. c \<noteq> CHR ''/'') (rev p) = ''/'' then ''/''
      else rev (drop 1 (dropWhile (\<lambda>c. c \<noteq> CHR ''/'') (rev p))))"

definition isDirectory :: "fsys \<Rightarrow> path \<Rightarrow> bool" where
  "isDirectory f d = (d = [] \<or> d = ''/'' \<or> lookup f d = Some Dir)"

definition moveTree :: "path \<Rightarrow> path \<Rightarrow> fsys \<Rightarrow> fsys" where
  "moveTree a b f =
     map (\<lambda>kv. if isUnder a (fst kv) then (b @ drop (length a) (fst kv), snd kv) else kv)
       (if a = b then f else eraseTree b f)"

section \<open>Outcomes, events and the program state\<close>

text \<open>The exception classes the source tells apart: \<^verbatim>\<open>catch (DBException&)\<close> in the
  cleanup guard, \<^verbatim>\<open>catch (filesystem_error&)\<close> in the rename wrapper; the assertion
  macros catch \<^verbatim>\<open>std::exception\<close> and everything else.\<close>

datatype exn = DBException | filesystem_error | std_exception | unknown_exception

datatype fatal = InvariantFailed | FassertFailed nat | Terminate | Crash

datatype code = OK | OutOfDiskSpace | NamespaceNotFound | OtherError nat

datatype Status = Status code string

fun isOK :: "Status \<Rightarrow> bool" where
  "isOK (Status c m) = (c = OK)"

fun reason :: "Status \<Rightarrow> string" where
  "reason (Status c m) = m"

text \<open>
  The outcome of running a piece of the source: it completes with a value, it makes
  \<^verbatim>\<open>repairDatabase\<close> return early with a status, it throws, or the process ends.
\<close>

datatype 'a res = Ret 'a | Return Status | Throw exn | Fatal fatal

datatype BSONElement =
    EOO
  | String string
  | Object "(string \<times> BSONElement) list"
  | Array "(string \<times> BSONElement) list"
  | OtherValue nat

type_synonym BSONObj = "(string \<times> BSONElement) list"

datatype CollectionOptions = CollectionOptions "BSONObj option"

text \<open>Who issued a call: one of the four \<^verbatim>\<open>FileOp\<close> classes (also for the wait that
  \<^verbatim>\<open>_applyOpToDataFiles\<close> does on the operation's behalf), or a function of the file.\<close>

datatype origin =
    FromDeleter | FromRenamer | FromSizeAccumulator | FromReplacer
  | From_deleteDataFiles | From_uniqueReservedPath | From_RepairFileDeleter
  | From_repairDatabase

datatype fsop =
    Exists path | Remove path | RemoveAll path | Rename path path
  | CopyFile path path | CreateDirectory path | FileSize path

datatype extcall =
    WaitUntilFinished
  | AssertNoBgOpInProgForDb string
  | SyncDataAndTruncateJournal
  | FlushAll bool
  | FreeSpace path
  | CheckForInterrupt bool
  | DbHolderGet string path
  | GetOrCreate string path
  | ContextNs string
  | ContextPath string path
  | ContextDb string bool
  | CreateCollection string CollectionOptions
  | IndexInit string "BSONObj list"
  | InsertDocument string BSONObj
  | CommitIfNeeded
  | IndexCommit string
  | CloseDatabase string path

datatype event =
    Fs origin fsop
  | Ext origin extcall
  | Applied origin path bool
  | Log string
  | Success

record RepairFileDeleter =
  g_dbName :: string
  g_pathString :: string
  g_path :: path
  g_success :: bool

text \<open>The state: the files, the process-wide flag \<^verbatim>\<open>inDBRepair\<close>, the calls made so
  far, and the local \<^verbatim>\<open>scoped_ptr<RepairFileDeleter>\<close> of \<^verbatim>\<open>repairDatabase\<close>.\<close>

record state =
  fs :: fsys
  inDBRepair :: bool
  trace :: "event list"
  repairFileDeleter :: "RepairFileDeleter option"

record Collection =
  docs :: "BSONObj option list"
  indexes :: "BSONObj list"

text \<open>
  Everything the file consumes from outside: the storage parameters, the constant
  \<^verbatim>\<open>DiskLoc::MaxFiles\<close>, the answers of the storage engine, and for every call that
  leaves the file whether it throws (given the calls made so far) and what it does to the
  files.
\<close>

record env =
  dbpath :: path
  repairpath :: path
  directoryperdb :: bool
  MaxFiles :: nat
  fault :: "event list \<Rightarrow> event \<Rightarrow> exn option"
  extEffect :: "event \<Rightarrow> fsys \<Rightarrow> fsys"
  freeSpace :: int
  ccDatabaseName :: string
  ccDatabasePath :: path
  originalDatabase :: "(string \<times> Collection) list option"
  justCreated :: bool
  isNormal :: "string \<Rightarrow> bool"
  parse :: "BSONObj \<Rightarrow> Status"
  initResult :: "string \<Rightarrow> BSONObj list \<Rightarrow> Status"
  insertResult :: "string \<Rightarrow> BSONObj \<Rightarrow> Status"
  commitResult :: "string \<Rightarrow> Status"

type_synonym 'a prog = "state \<Rightarrow> 'a res \<times> state"

definition ret :: "'a \<Rightarrow> 'a prog" where
  "ret x w = (Ret x, w)"

definition bnd :: "'a prog \<Rightarrow> ('a \<Rightarrow> 'b prog) \<Rightarrow> 'b prog" where
  "bnd m f w =
     (case m w of
        (Ret a, w1) \<Rightarrow> f a w1
      | (Return s, w1) \<Rightarrow> (Return s, w1)
      | (Throw e, w1) \<Rightarrow> (Throw e, w1)
      | (Fatal c, w1) \<Rightarrow> (Fatal c, w1))"

definition emit :: "event \<Rightarrow> state \<Rightarrow> state" where
  "emit e w = w\<lparr>trace := trace w @ [e]\<rparr>"

definition logLine :: "string \<Rightarrow> unit prog" where
  "logLine s w = (Ret (), emit (Log s) w)"

text \<open>A call that leaves the file: recorded, then it throws if the environment says so,
  otherwise it has the environment's effect on the files.\<close>

definition extCall :: "env \<Rightarrow> origin \<Rightarrow> extcall \<Rightarrow> unit prog" where
  "extCall E og c w =
     (case fault E (trace w) (Ext og c) of
        Some x \<Rightarrow> (Throw x, emit (Ext og c) w)
      | None \<Rightarrow> (Ret (), (emit (Ext og c) w)\<lparr>fs := extEffect E (Ext og c) (fs w)\<rparr>))"

text \<open>The boost file-system calls: recorded, then a fault of the environment, otherwise
  the call's own meaning on the table.\<close>

definition fsCall :: "env \<Rightarrow> origin \<Rightarrow> fsop \<Rightarrow> (fsys \<Rightarrow> 'a res \<times> fsys) \<Rightarrow> 'a prog" where
  "fsCall E og c sem w =
     (case fault E (trace w) (Fs og c) of
        Some x \<Rightarrow> (Throw x, emit (Fs og c) w)
      | None \<Rightarrow> (case sem (fs w) of (r, f) \<Rightarrow> (r, (emit (Fs og c) w)\<lparr>fs := f\<rparr>)))"

definition fs_exists :: "env \<Rightarrow> origin \<Rightarrow> path \<Rightarrow> bool prog" where
  "fs_exists E og p = fsCall E og (Exists p) (\<lambda>f. (Ret (lookup f p \<noteq> None), f))"

definition fs_remove :: "env \<Rightarrow> origin \<Rightarrow> path \<Rightarrow> bool prog" where
  "fs_remove E og p = fsCall E og (Remove p) (\<lambda>f.
     case lookup f p of
       None \<Rightarrow> (Ret False, f)
     | Some (File n) \<Rightarrow> (Ret True, erase p f)
     | Some Dir \<Rightarrow> if hasChildren f p then (Throw filesystem_error, f) else (Ret True, erase p f))"

definition fs_remove_all :: "env \<Rightarrow> origin \<Rightarrow> path \<Rightarrow> unit prog" where
  "fs_remove_all E og p = fsCall E og (RemoveAll p) (\<lambda>f. (Ret (), eraseTree p f))"

text \<open>\<^verbatim>\<open>rename\<close> and \<^verbatim>\<open>copy_file\<close> fail when the source is missing or the directory
  that is to hold the target does not exist.\<close>

definition fs_rename :: "env \<Rightarrow> origin \<Rightarrow> path \<Rightarrow> path \<Rightarrow> unit prog" where
  "fs_rename E og a b = fsCall E og (Rename a b) (\<lambda>f.
     case lookup f a of
       None \<Rightarrow> (Throw filesystem_error, f)
     | Some e \<Rightarrow>
         if isDirectory f (parent_path b) then (Ret (), moveTree a b f)
         else (Throw filesystem_error, f))"

definition fs_copy_file :: "env \<Rightarrow> origin \<Rightarrow> path \<Rightarrow> path \<Rightarrow> unit prog" where
  "fs_copy_file E og a b = fsCall E og (CopyFile a b) (\<lambda>f.
     case lookup f a of
       Some (File n) \<Rightarrow>
         (if lookup f b = None \<and> isDirectory f (parent_path b) then (Ret (), f @ [(b, File n)])
          else (Throw filesystem_error, f))
     | _ \<Rightarrow> (Throw filesystem_error, f))"

definition fs_create_directory :: "env \<Rightarrow> origin \<Rightarrow> path \<Rightarrow> bool prog" where
  "fs_create_directory E og p = fsCall E og (CreateDirectory p) (\<lambda>f.
     case lookup f p of
       None \<Rightarrow> (Ret True, f @ [(p, Dir)])
     | Some Dir \<Rightarrow> (Ret False, f)
     | Some (File n) \<Rightarrow> (Throw filesystem_error, f))"

definition fs_file_size :: "env \<Rightarrow> origin \<Rightarrow> path \<Rightarrow> nat prog" where
  "fs_file_size E og p = fsCall E og (FileSize p) (\<lambda>f.
     case lookup f p of
       Some (File n) \<Rightarrow> (Ret n, f)
     | _ \<Rightarrow> (Throw filesystem_error, f))"

text \<open>Modelled from the spec: the assertion macros are defined outside this file.
  \<^verbatim>\<open>MONGO_ASSERT_ON_EXCEPTION\<close> traps any exception of its argument and raises an
  assertion, which is a \<^verbatim>\<open>DBException\<close>; \<^verbatim>\<open>verify\<close> raises one when its condition
  is false; \<^verbatim>\<open>invariant\<close> ends the process.\<close>

definition assertOnException :: "'a prog \<Rightarrow> 'a prog" where
  "assertOnException m w =
     (case m w of (Throw e, w1) \<Rightarrow> (Throw DBException, w1) | rw \<Rightarrow> rw)"

definition verify :: "bool \<Rightarrow> unit prog" where
  "verify b w = (if b then (Ret (), w) else (Throw DBException, w))"

definition invariant :: "bool \<Rightarrow> unit prog" where
  "invariant b w = (if b then (Ret (), w) else (Fatal InvariantFailed, w))"

section \<open>The scope marker\<close>

definition doingRepair_ctor :: "unit prog" where
  "doingRepair_ctor = bnd (\<lambda>w. verify (\<not> inDBRepair w) w) (\<lambda>_ w. (Ret (), w\<lparr>inDBRepair := True\<rparr>))"

definition doingRepair_dtor :: "state \<Rightarrow> state" where
  "doingRepair_dtor w = w\<lparr>inDBRepair := False\<rparr>"

section \<open>File operations and the enumerator\<close>

text \<open>The four local classes derived from \<^verbatim>\<open>FileOp\<close>, with their members.\<close>

datatype FileOp = Deleter | Renamer path | SizeAccumulator int | Replacer path

fun originOf :: "FileOp \<Rightarrow> origin" where
  "originOf Deleter = FromDeleter"
| "originOf (Renamer np) = FromRenamer"
| "originOf (SizeAccumulator t) = FromSizeAccumulator"
| "originOf (Replacer np) = FromReplacer"

fun op :: "FileOp \<Rightarrow> string" where
  "op Deleter = ''remove''"
| "op (Renamer np) = ''renaming''"
| "op (SizeAccumulator t) = ''checking size''"
| "op (Replacer np) = ''renaming''"

definition boostRenameWrapper :: "env \<Rightarrow> origin \<Rightarrow> path \<Rightarrow> path \<Rightarrow> unit prog" where
  "boostRenameWrapper E og a b w =
     (case fs_rename E og a b w of
        (Throw filesystem_error, w1) \<Rightarrow>
          bnd (fs_copy_file E og a b) (\<lambda>_. bnd (fs_remove E og a) (\<lambda>_. ret ())) w1
      | rw \<Rightarrow> rw)"

text \<open>\<^verbatim>\<open>fo.apply(p)\<close>: the answer and the operation with its members updated.  The
  member \<^verbatim>\<open>totalSize_\<close> of the size accumulator is an \<^verbatim>\<open>intmax_t\<close>, so the sum
  it holds after \<^verbatim>\<open>totalSize_ += file_size( p )\<close> is the wrapped one.\<close>

fun FileOp_apply :: "env \<Rightarrow> FileOp \<Rightarrow> path \<Rightarrow> (bool \<times> FileOp) prog" where
  "FileOp_apply E Deleter p =
     bnd (fs_remove E FromDeleter p) (\<lambda>b. ret (b, Deleter))"
| "FileOp_apply E (Renamer newPath) p =
     bnd (fs_exists E FromRenamer p) (\<lambda>ex.
       if \<not> ex then ret (False, Renamer newPath)
       else bnd (boostRenameWrapper E FromRenamer p (slash newPath (leaf p @ ''.bak'')))
              (\<lambda>_. ret (True, Renamer newPath)))"
| "FileOp_apply E (SizeAccumulator totalSize) p =
     bnd (fs_exists E FromSizeAccumulator p) (\<lambda>ex.
       if \<not> ex then ret (False, SizeAccumulator totalSize)
       else bnd (fs_file_size E FromSizeAccumulator p)
              (\<lambda>n. ret (True, SizeAccumulator (intmax (totalSize + int n)))))"
| "FileOp_apply E (Replacer newPath) p =
     bnd (fs_exists E FromReplacer p) (\<lambda>ex.
       if \<not> ex then ret (False, Replacer newPath)
       else bnd (boostRenameWrapper E FromReplacer p (slash newPath (leaf p)))
              (\<lambda>_. ret (True, Replacer newPath)))"

text \<open>\<^verbatim>\<open>MONGO_ASSERT_ON_EXCEPTION( ok = fo.apply( q ) )\<close>; the answer is recorded.\<close>

definition applyChecked :: "env \<Rightarrow> FileOp \<Rightarrow> path \<Rightarrow> (bool \<times> FileOp) prog" where
  "applyChecked E fo q =
     bnd (assertOnException (FileOp_apply E fo q))
       (\<lambda>r w. (Ret r, emit (Applied (originOf fo) q (fst r)) w))"

text \<open>The \<^verbatim>\<open>while ( 1 )\<close> loop of \<^verbatim>\<open>_applyOpToDataFiles\<close>, from the state
  \<^verbatim>\<open>i\<close>, \<^verbatim>\<open>extra\<close>.\<close>

function applyLoop ::
  "env \<Rightarrow> FileOp \<Rightarrow> path \<Rightarrow> string \<Rightarrow> nat \<Rightarrow> int \<Rightarrow> FileOp prog" where
  "applyLoop E fo p c i extra w =
     (if \<not> i \<le> MaxFiles E then (Throw DBException, w)
      else
        (case applyChecked E fo (slash p (c @ decimal i)) w of
           (Ret (ok, fo1), w1) \<Rightarrow>
             if ok then
               (if extra \<noteq> 10 then
                  applyLoop E fo1 p c (Suc i) extra
                    (emit (Log (''  _applyOpToDataFiles() warning: extra == '' @ decimalInt extra))
                      (emit (Log (op fo1 @ '' file '' @ slash p (c @ decimal i))) w1))
                else applyLoop E fo1 p c (Suc i) extra w1)
             else if extra - 1 \<le> 0 then (Ret fo1, w1)
             else applyLoop E fo1 p c (Suc i) (extra - 1) w1
         | (Return s, w1) \<Rightarrow> (Return s, w1)
         | (Throw e, w1) \<Rightarrow> (Throw e, w1)
         | (Fatal x, w1) \<Rightarrow> (Fatal x, w1)))"
  by pat_completeness auto
termination
  by (relation "measure (\<lambda>(E, fo, p, c, i, extra, w). Suc (MaxFiles E) - i)") auto

declare applyLoop.simps [simp del]

definition applyOpToDataFiles ::
  "env \<Rightarrow> string \<Rightarrow> FileOp \<Rightarrow> bool \<Rightarrow> path \<Rightarrow> FileOp prog" where
  "applyOpToDataFiles E database fo afterAllocator pth =
     bnd (if afterAllocator then extCall E (originOf fo) WaitUntilFinished else ret ())
       (\<lambda>_. bnd (applyChecked E fo
                   (slash (if directoryperdb E then slash pth database else pth)
                      ((database @ ''.'') @ ''ns'')))
         (\<lambda>r. bnd (if fst r
                     then logLine (op (snd r) @ '' file '' @
                            slash (if directoryperdb E then slash pth database else pth)
                              ((database @ ''.'') @ ''ns''))
                     else ret ())
           (\<lambda>_. applyLoop E (snd r)
                   (if directoryperdb E then slash pth database else pth)
                   (database @ ''.'') 0 10)))"


fun FileOp_size :: "FileOp \<Rightarrow> int" where
  "FileOp_size (SizeAccumulator totalSize) = totalSize"
| "FileOp_size fo = 0"

definition deleteDataFiles :: "env \<Rightarrow> string \<Rightarrow> unit prog" where
  "deleteDataFiles E database =
     (if directoryperdb E then
        bnd (extCall E From_deleteDataFiles WaitUntilFinished)
          (\<lambda>_. assertOnException
                 (fs_remove_all E From_deleteDataFiles (slash (dbpath E) database)))
      else bnd (applyOpToDataFiles E database Deleter True (dbpath E)) (\<lambda>_. ret ()))"

definition renameForBackup :: "env \<Rightarrow> string \<Rightarrow> path \<Rightarrow> unit prog" where
  "renameForBackup E database reservedPath =
     bnd (applyOpToDataFiles E database
            (Renamer (if directoryperdb E then slash reservedPath database else reservedPath))
            True (dbpath E))
       (\<lambda>_. ret ())"

definition dbSize :: "env \<Rightarrow> string \<Rightarrow> int prog" where
  "dbSize E database =
     bnd (applyOpToDataFiles E database (SizeAccumulator 0) False (dbpath E))
       (\<lambda>sa. ret (FileOp_size sa))"

definition replaceWithRecovered :: "env \<Rightarrow> string \<Rightarrow> string \<Rightarrow> unit prog" where
  "replaceWithRecovered E database reservedPathString =
     bnd (applyOpToDataFiles E database
            (Replacer (if directoryperdb E then slash (dbpath E) database else dbpath E))
            True reservedPathString)
       (\<lambda>_. ret ())"

section \<open>The reserved path\<close>

definition reservedName :: "env \<Rightarrow> string \<Rightarrow> nat \<Rightarrow> path" where
  "reservedName E prefix i = slash (repairpath E) (prefix @ ''_repairDatabase_'' @ decimal i)"

lemma digit_inj: "a < 10 \<Longrightarrow> b < 10 \<Longrightarrow> digit a = digit b \<Longrightarrow> a = b"
proof -
  assume a: "a < 10" and b: "b < 10" and e: "digit a = digit b"
  have d: "distinct ''0123456789''" by simp
  have "a < length ''0123456789''" "b < length ''0123456789''" using a b by simp_all
  with d e show "a = b" unfolding digit_def by (simp only: nth_eq_iff_index_eq)
qed

lemma decimal_nonempty: "decimal n \<noteq> []"
  by (subst decimal.simps) simp

lemma decimal_inj: "decimal n = decimal m \<Longrightarrow> n = m"
proof (induction n arbitrary: m rule: decimal.induct)
  case (1 n)
  show ?case
  proof (cases "n < 10")
    case True
    then have n1: "decimal n = [digit n]" by (subst decimal.simps) simp
    show ?thesis
    proof (cases "m < 10")
      case mt: True
      then have "decimal m = [digit m]" by (subst decimal.simps) simp
      with n1 "1.prems" have "digit n = digit m" by simp
      with True mt show ?thesis by (rule digit_inj)
    next
      case False
      then have "decimal m = decimal (m div 10) @ [digit (m mod 10)]"
        by (subst decimal.simps) simp
      with n1 "1.prems" have "decimal (m div 10) = []" by simp
      with decimal_nonempty show ?thesis by blast
    qed
  next
    case nf: False
    then have n2: "decimal n = decimal (n div 10) @ [digit (n mod 10)]"
      by (subst decimal.simps) simp
    show ?thesis
    proof (cases "m < 10")
      case True
      then have "decimal m = [digit m]" by (subst decimal.simps) simp
      with n2 "1.prems" have "decimal (n div 10) = []" by simp
      with decimal_nonempty show ?thesis by blast
    next
      case False
      then have "decimal m = decimal (m div 10) @ [digit (m mod 10)]"
        by (subst decimal.simps) simp
      with n2 "1.prems" have e1: "decimal (n div 10) = decimal (m div 10)"
        and e2: "digit (n mod 10) = digit (m mod 10)" by simp_all
      from "1.IH" [OF nf e1] have q: "n div 10 = m div 10" .
      have "n mod 10 = m mod 10" using e2 by (intro digit_inj) simp_all
      with q show ?thesis by (metis div_mult_mod_eq)
    qed
  qed
qed

lemma reservedName_inj: "reservedName E prefix i = reservedName E prefix j \<Longrightarrow> i = j"
proof -
  assume e: "reservedName E prefix i = reservedName E prefix j"
  have hd_eq: "hd (prefix @ ''_repairDatabase_'' @ decimal k) = hd (prefix @ ''_repairDatabase_'')" for k
    by (cases prefix) simp_all
  have "decimal i = decimal j"
    using e hd_eq [of i] hd_eq [of j] unfolding reservedName_def slash_def
    by (simp split: if_splits)
  then show "i = j" by (rule decimal_inj)
qed

lemma finite_reserved: "finite {j. lookup f (reservedName E prefix j) \<noteq> None}"
proof -
  have "{j. lookup f (reservedName E prefix j) \<noteq> None} \<subseteq> reservedName E prefix -` dom (map_of f)"
    by (auto simp: lookup_def)
  moreover have "finite (reservedName E prefix -` dom (map_of f))"
    by (rule finite_vimageI) (auto simp: finite_dom_map_of inj_on_def dest: reservedName_inj)
  ultimately show ?thesis by (rule finite_subset)
qed

lemma fs_exists_Ret:
  "assertOnException (fs_exists E og p) w = (Ret ex, w1) \<Longrightarrow>
     fs w1 = fs w \<and> ex = (lookup (fs w) p \<noteq> None) \<and> trace w1 = trace w @ [Fs og (Exists p)]
     \<and> inDBRepair w1 = inDBRepair w \<and> repairFileDeleter w1 = repairFileDeleter w"
  by (auto simp: assertOnException_def fs_exists_def fsCall_def emit_def
      split: option.splits prod.splits res.splits)

text \<open>The \<^verbatim>\<open>do ... while ( exists )\<close> loop of \<^verbatim>\<open>uniqueReservedPath\<close>, from
  \<^verbatim>\<open>i\<close>.  It ends because the table of files is finite and the candidate names differ.\<close>

function uniqueReservedPath_loop :: "env \<Rightarrow> string \<Rightarrow> nat \<Rightarrow> path prog" where
  "uniqueReservedPath_loop E prefix i w =
     (case assertOnException
             (fs_exists E From_uniqueReservedPath (reservedName E prefix i)) w of
        (Ret ex, w1) \<Rightarrow>
          if ex then uniqueReservedPath_loop E prefix (Suc i) w1
          else (Ret (reservedName E prefix i), w1)
      | (Return s, w1) \<Rightarrow> (Return s, w1)
      | (Throw e, w1) \<Rightarrow> (Throw e, w1)
      | (Fatal x, w1) \<Rightarrow> (Fatal x, w1))"
  by pat_completeness auto
termination
proof (relation "measure (\<lambda>(E, prefix, i, w).
          card {j. i \<le> j \<and> lookup (fs w) (reservedName E prefix j) \<noteq> None})", goal_cases)
  case 1
  show ?case by simp
next
  case (2 E prefix i w x w1 ex)
  from 2 have r: "assertOnException
      (fs_exists E From_uniqueReservedPath (reservedName E prefix i)) w = (Ret True, w1)"
    by simp
  note f = fs_exists_Ret [OF r]
  let ?A = "{j. i \<le> j \<and> lookup (fs w) (reservedName E prefix j) \<noteq> None}"
  let ?B = "{j. Suc i \<le> j \<and> lookup (fs w) (reservedName E prefix j) \<noteq> None}"
  have fin: "finite ?A"
    by (rule finite_subset [OF _ finite_reserved [of "fs w" E prefix]]) auto
  have "i \<in> ?A" "i \<notin> ?B" using f by auto
  moreover have "?B \<subseteq> ?A" by auto
  ultimately have "?B \<subset> ?A" by blast
  with fin have "card ?B < card ?A" by (rule psubset_card_mono)
  with f show ?case by simp
qed

declare uniqueReservedPath_loop.simps [simp del]

definition uniqueReservedPath :: "env \<Rightarrow> string \<Rightarrow> path prog" where
  "uniqueReservedPath E prefix = uniqueReservedPath_loop E prefix 0"

section \<open>The cleanup guard\<close>

definition RepairFileDeleter_cleanup :: "env \<Rightarrow> RepairFileDeleter \<Rightarrow> unit prog" where
  "RepairFileDeleter_cleanup E g =
     bnd (extCall E From_RepairFileDeleter SyncDataAndTruncateJournal)
       (\<lambda>_. bnd (extCall E From_RepairFileDeleter (FlushAll True))
         (\<lambda>_. bnd (extCall E From_RepairFileDeleter (ContextPath (g_dbName g) (g_pathString g)))
           (\<lambda>_. bnd (extCall E From_RepairFileDeleter
                       (CloseDatabase (g_dbName g) (g_pathString g)))
             (\<lambda>_. assertOnException (fs_remove_all E From_RepairFileDeleter (g_path g))))))"

text \<open>\<^verbatim>\<open>~RepairFileDeleter\<close>: the \<^verbatim>\<open>try\<close> block is \<open>RepairFileDeleter_cleanup\<close>;
  only a \<^verbatim>\<open>DBException\<close> is caught, and then the process ends.\<close>

definition RepairFileDeleter_dtor :: "env \<Rightarrow> RepairFileDeleter \<Rightarrow> unit prog" where
  "RepairFileDeleter_dtor E g =
     (if g_success g then ret ()
      else bnd (logLine (''cleaning up failed repair db: '' @ g_dbName g @ '' path: '' @
                   g_pathString g))
        (\<lambda>_ w. case RepairFileDeleter_cleanup E g w of
            (Throw DBException, w1) \<Rightarrow>
              (Fatal (FassertFailed 17402),
               emit (Log ''aborting'') (emit (Log ''RepairFileDeleter failed to cleanup: '') w1))
          | rw \<Rightarrow> rw))"

definition RepairFileDeleter_success :: "unit prog" where
  "RepairFileDeleter_success w =
     (case repairFileDeleter w of
        None \<Rightarrow> (Ret (), w)
      | Some g \<Rightarrow> (Ret (), emit Success (w\<lparr>repairFileDeleter := Some (g\<lparr>g_success := True\<rparr>)\<rparr>)))"


section \<open>The repair coordinator\<close>

text \<open>\<^verbatim>\<open>obj["name"]\<close>: the first field of that name, or the end-of-object element.\<close>

definition getField :: "BSONObj \<Rightarrow> string \<Rightarrow> BSONElement" where
  "getField obj k = (case map_of obj k of None \<Rightarrow> EOO | Some e \<Rightarrow> e)"

text \<open>\<^verbatim>\<open>std::map<string,CollectionOptions>\<close>: kept in key order, compared as
  \<^verbatim>\<open>std::string\<close> compares (bytes as unsigned values); \<^verbatim>\<open>m[k] = v\<close> inserts or
  overwrites.\<close>

fun string_less :: "string \<Rightarrow> string \<Rightarrow> bool" where
  "string_less [] [] = False"
| "string_less [] (y # ys) = True"
| "string_less (x # xs) [] = False"
| "string_less (x # xs) (y # ys) =
     ((of_char x :: nat) < of_char y \<or> (x = y \<and> string_less xs ys))"

fun mapAssign :: "string \<Rightarrow> 'v \<Rightarrow> (string \<times> 'v) list \<Rightarrow> (string \<times> 'v) list" where
  "mapAssign k v [] = [(k, v)]"
| "mapAssign k v ((k1, v1) # m) =
     (if k = k1 then (k, v) # m
      else if string_less k k1 then (k, v) # (k1, v1) # m
      else (k1, v1) # mapAssign k v m)"

definition returnStatus :: "Status \<Rightarrow> 'a prog" where
  "returnStatus s w = (Return s, w)"

definition returnUnlessOK :: "Status \<Rightarrow> unit prog" where
  "returnUnlessOK s w = (if \<not> isOK s then (Return s, w) else (Ret (), w))"

text \<open>
  The loop over \<^verbatim>\<open><db>.system.namespaces\<close> (lines 334 to 358), on the records the
  iterator still has to deliver and the map built so far.  Reads of the original database
  are answered by the environment and not recorded.  \<^verbatim>\<open>String()\<close> on an element that
  is no string raises an assertion; reading the record at a null location ends the
  process.
\<close>

fun scanNamespaces ::
  "env \<Rightarrow> BSONObj option list \<Rightarrow> (string \<times> CollectionOptions) list \<Rightarrow>
     (string \<times> CollectionOptions) list prog" where
  "scanNamespaces E [] namespacesToCopy = ret namespacesToCopy"
| "scanNamespaces E (None # rest) namespacesToCopy = (\<lambda>w. (Fatal Crash, w))"
| "scanNamespaces E (Some obj # rest) namespacesToCopy =
     (case getField obj ''name'' of
        String ns \<Rightarrow>
          if isSystem ns \<and> (isSystemDotIndexes ns \<or> coll ns = ''system.namespaces'')
          then scanNamespaces E rest namespacesToCopy
          else if \<not> isNormal E ns then scanNamespaces E rest namespacesToCopy
          else
            (case getField obj ''options'' of
               Object ob \<Rightarrow>
                 bnd (returnUnlessOK (parse E ob))
                   (\<lambda>_. scanNamespaces E rest
                          (mapAssign ns (CollectionOptions (Some ob)) namespacesToCopy))
             | Array ob \<Rightarrow>
                 bnd (returnUnlessOK (parse E ob))
                   (\<lambda>_. scanNamespaces E rest
                          (mapAssign ns (CollectionOptions (Some ob)) namespacesToCopy))
             | _ \<Rightarrow> scanNamespaces E rest (mapAssign ns (CollectionOptions None) namespacesToCopy))
      | _ \<Rightarrow> (\<lambda>w. (Throw DBException, w)))"

text \<open>The loop over the documents of one collection (lines 400 to 413).\<close>

fun copyDocs :: "env \<Rightarrow> string \<Rightarrow> BSONObj option list \<Rightarrow> unit prog" where
  "copyDocs E ns [] = ret ()"
| "copyDocs E ns (None # rest) = invariant False"
| "copyDocs E ns (Some doc # rest) =
     bnd (extCall E From_repairDatabase (ContextDb ns True))
       (\<lambda>_. bnd (extCall E From_repairDatabase (InsertDocument ns doc))
         (\<lambda>_. bnd (returnUnlessOK (insertResult E ns doc))
           (\<lambda>_. bnd (extCall E From_repairDatabase CommitIfNeeded)
             (\<lambda>_. bnd (extCall E From_repairDatabase (CheckForInterrupt False))
               (\<lambda>_. copyDocs E ns rest)))))"

text \<open>The loop over \<^verbatim>\<open>namespacesToCopy\<close> (lines 362 to 422).\<close>

fun cloneCollections ::
  "env \<Rightarrow> (string \<times> Collection) list \<Rightarrow> (string \<times> CollectionOptions) list \<Rightarrow> unit prog" where
  "cloneCollections E originalDb [] = ret ()"
| "cloneCollections E originalDb ((ns, options) # rest) =
     bnd (extCall E From_repairDatabase (ContextDb ns True))
       (\<lambda>_. bnd (extCall E From_repairDatabase (CreateCollection ns options))
         (\<lambda>_. bnd (extCall E From_repairDatabase (ContextDb ns False))
           (\<lambda>_. case map_of originalDb ns of
                  None \<Rightarrow> invariant False
                | Some originalCollection \<Rightarrow>
                    bnd (extCall E From_repairDatabase (ContextDb ns True))
                      (\<lambda>_. bnd (extCall E From_repairDatabase
                                  (IndexInit ns (indexes originalCollection)))
                        (\<lambda>_. bnd (returnUnlessOK (initResult E ns (indexes originalCollection)))
                          (\<lambda>_. bnd (copyDocs E ns (docs originalCollection))
                            (\<lambda>_. bnd (extCall E From_repairDatabase (ContextDb ns True))
                              (\<lambda>_. bnd (extCall E From_repairDatabase (IndexCommit ns))
                                (\<lambda>_. bnd (returnUnlessOK (commitResult E ns))
                                  (\<lambda>_. cloneCollections E originalDb rest))))))))))"

text \<open>Lines 281 to 290: the preconditions, the first durability fence and the size of
  the database's files.  It yields \<^verbatim>\<open>totalSize\<close>.\<close>

definition repairDatabase_measure :: "env \<Rightarrow> string \<Rightarrow> int prog" where
  "repairDatabase_measure E dbName =
     bnd (logLine (''repairDatabase '' @ dbName))
       (\<lambda>_. bnd (invariant (ccDatabaseName E = dbName))
         (\<lambda>_. bnd (invariant (ccDatabasePath E = dbpath E))
           (\<lambda>_. bnd (extCall E From_repairDatabase (AssertNoBgOpInProgForDb dbName))
             (\<lambda>_. bnd (extCall E From_repairDatabase SyncDataAndTruncateJournal)
               (\<lambda>_. dbSize E dbName)))))"

text \<open>Lines 291 to 298: the capacity check.\<close>

definition outOfDiskSpaceMessage :: "string \<Rightarrow> int \<Rightarrow> int \<Rightarrow> string" where
  "outOfDiskSpaceMessage dbName totalSize freeSize =
     ''Cannot repair database '' @ dbName @ '' having size: '' @ decimalInt totalSize @
     '' (bytes) because free disk space is: '' @ decimalInt freeSize @ '' (bytes)''"

definition repairDatabase_check :: "env \<Rightarrow> string \<Rightarrow> int prog" where
  "repairDatabase_check E dbName =
     bnd (repairDatabase_measure E dbName)
       (\<lambda>totalSize. bnd (extCall E From_repairDatabase (FreeSpace (repairpath E)))
         (\<lambda>_. if freeSpace E > - 1 \<and> freeSpace E < totalSize
               then returnStatus (Status OutOfDiskSpace
                      (outOfDiskSpaceMessage dbName totalSize (freeSpace E)))
               else ret totalSize))"

text \<open>Lines 300 to 311: the interrupt check, the reserved directory and the guard.\<close>

definition repairDatabase_reserve :: "env \<Rightarrow> string \<Rightarrow> bool \<Rightarrow> bool \<Rightarrow> path prog" where
  "repairDatabase_reserve E dbName preserveClonedFilesOnFailure backupOriginalFiles =
     bnd (extCall E From_repairDatabase (CheckForInterrupt True))
       (\<lambda>_. bnd (uniqueReservedPath E
                   (if preserveClonedFilesOnFailure \<or> backupOriginalFiles
                    then ''backup'' else ''_tmp''))
         (\<lambda>reservedPath.
            bnd (assertOnException (fs_create_directory E From_repairDatabase reservedPath))
              (\<lambda>_ w. if \<not> preserveClonedFilesOnFailure
                      then (Ret reservedPath,
                            w\<lparr>repairFileDeleter :=
                                Some \<lparr>g_dbName = dbName, g_pathString = reservedPath,
                                      g_path = reservedPath, g_success = False\<rparr>\<rparr>)
                      else (Ret reservedPath, w))))"

text \<open>Lines 313 to 432: both databases are opened, the catalog is scanned, the
  collections are rebuilt, the second durability fence, both databases are closed.\<close>

definition repairDatabase_clone :: "env \<Rightarrow> string \<Rightarrow> string \<Rightarrow> unit prog" where
  "repairDatabase_clone E dbName reservedPathString =
     bnd (extCall E From_repairDatabase (DbHolderGet dbName (dbpath E)))
       (\<lambda>_. case originalDatabase E of
              None \<Rightarrow> returnStatus (Status NamespaceNotFound ''database does not exist to repair'')
            | Some originalDb \<Rightarrow>
                bnd (extCall E From_repairDatabase (GetOrCreate dbName reservedPathString))
                  (\<lambda>_. bnd (invariant (justCreated E))
                    (\<lambda>_. bnd (extCall E From_repairDatabase
                                (ContextNs (dbName @ ''.system.namespaces'')))
                      (\<lambda>_. bnd (case map_of originalDb (dbName @ ''.system.namespaces'') of
                                  None \<Rightarrow> ret []
                                | Some c \<Rightarrow> scanNamespaces E (docs c) [])
                        (\<lambda>namespacesToCopy.
                           bnd (cloneCollections E originalDb namespacesToCopy)
                             (\<lambda>_. bnd (extCall E From_repairDatabase SyncDataAndTruncateJournal)
                               (\<lambda>_. bnd (extCall E From_repairDatabase (FlushAll True))
                                 (\<lambda>_. bnd (extCall E From_repairDatabase
                                             (ContextPath dbName reservedPathString))
                                   (\<lambda>_. bnd (extCall E From_repairDatabase
                                               (CloseDatabase dbName reservedPathString))
                                     (\<lambda>_. bnd (extCall E From_repairDatabase (ContextNs dbName))
                                       (\<lambda>_. extCall E From_repairDatabase
                                              (CloseDatabase dbName (dbpath E)))))))))))))"

text \<open>Lines 435 to 442: the original files are renamed for backup, or deleted.\<close>

definition repairDatabase_dispose :: "env \<Rightarrow> string \<Rightarrow> path \<Rightarrow> bool \<Rightarrow> unit prog" where
  "repairDatabase_dispose E dbName reservedPath backupOriginalFiles =
     (if backupOriginalFiles then renameForBackup E dbName reservedPath
      else bnd (deleteDataFiles E dbName)
             (\<lambda>_. bnd (assertOnException
                         (fs_create_directory E From_repairDatabase (slash (dbpath E) dbName)))
                (\<lambda>_. ret ())))"

text \<open>Lines 444 to 452: the guard is released, the rebuilt files are moved into place,
  the reserved directory is removed.\<close>

definition repairDatabase_install :: "env \<Rightarrow> string \<Rightarrow> path \<Rightarrow> bool \<Rightarrow> Status prog" where
  "repairDatabase_install E dbName reservedPath backupOriginalFiles =
     bnd RepairFileDeleter_success
       (\<lambda>_. bnd (replaceWithRecovered E dbName reservedPath)
         (\<lambda>_. bnd (if \<not> backupOriginalFiles
                    then assertOnException (fs_remove_all E From_repairDatabase reservedPath)
                    else ret ())
           (\<lambda>_. ret (Status OK []))))"

definition repairDatabase_body :: "env \<Rightarrow> string \<Rightarrow> bool \<Rightarrow> bool \<Rightarrow> Status prog" where
  "repairDatabase_body E dbName preserveClonedFilesOnFailure backupOriginalFiles =
     bnd (repairDatabase_check E dbName)
       (\<lambda>totalSize.
          bnd (repairDatabase_reserve E dbName preserveClonedFilesOnFailure backupOriginalFiles)
            (\<lambda>reservedPath.
               bnd (repairDatabase_clone E dbName reservedPath)
                 (\<lambda>_. bnd (repairDatabase_dispose E dbName reservedPath backupOriginalFiles)
                   (\<lambda>_. repairDatabase_install E dbName reservedPath backupOriginalFiles))))"

text \<open>
  Leaving \<^verbatim>\<open>repairDatabase\<close> by a return or an exception destroys the locals in reverse
  order: the marker \<^verbatim>\<open>dr\<close> first, then the guard.  An exception that leaves the guard's
  destructor while another one is unwinding ends the process.
\<close>

definition leave :: "env \<Rightarrow> Status res \<Rightarrow> state \<Rightarrow> Status res \<times> state" where
  "leave E r w =
     (case repairFileDeleter w of
        None \<Rightarrow> (r, doingRepair_dtor w)
      | Some g \<Rightarrow>
          (case RepairFileDeleter_dtor E g ((doingRepair_dtor w)\<lparr>repairFileDeleter := None\<rparr>) of
             (Throw e, w1) \<Rightarrow> (case r of Throw e0 \<Rightarrow> (Fatal Terminate, w1) | _ \<Rightarrow> (Throw e, w1))
           | (Fatal x, w1) \<Rightarrow> (Fatal x, w1)
           | (_, w1) \<Rightarrow> (r, w1)))"

text \<open>\<^verbatim>\<open>repairDatabase\<close>: \<open>Ret s\<close> is the status it returns, \<open>Throw\<close> an exception that
  leaves it, \<open>Fatal\<close> the end of the process.\<close>

definition repairDatabase :: "env \<Rightarrow> string \<Rightarrow> bool \<Rightarrow> bool \<Rightarrow> state \<Rightarrow> Status res \<times> state" where
  "repairDatabase E dbName preserveClonedFilesOnFailure backupOriginalFiles w =
     (case doingRepair_ctor (w\<lparr>repairFileDeleter := None\<rparr>) of
        (Ret u, w1) \<Rightarrow>
          (case repairDatabase_body E (nsToDatabase dbName)
                  preserveClonedFilesOnFailure backupOriginalFiles w1 of
             (Fatal x, w2) \<Rightarrow> (Fatal x, w2)
           | (Return s, w2) \<Rightarrow> leave E (Ret s) w2
           | (r, w2) \<Rightarrow> leave E r w2)
      | (Return s, w1) \<Rightarrow> (Ret s, w1)
      | (Throw e, w1) \<Rightarrow> (Throw e, w1)
      | (Fatal x, w1) \<Rightarrow> (Fatal x, w1))"

definition emits :: "(event \<Rightarrow> bool) \<Rightarrow> 'a prog \<Rightarrow> bool" where
  "emits P m = (\<forall>w r w1. m w = (r, w1) \<longrightarrow> (\<exists>tr. trace w1 = trace w @ tr \<and> list_all P tr))"

lemma emitsD: "emits P m \<Longrightarrow> m w = (r, w1) \<Longrightarrow> \<exists>tr. trace w1 = trace w @ tr \<and> list_all P tr"
  unfolding emits_def by blast

lemma emitsI:
  "(\<And>w r w1. m w = (r, w1) \<Longrightarrow> \<exists>tr. trace w1 = trace w @ tr \<and> list_all P tr) \<Longrightarrow> emits P m"
  unfolding emits_def by blast

lemma emits_ret: "emits P (ret x)"
  by (rule emitsI) (simp add: ret_def)


lemma bnd_split:
  "bnd m f w = (r, w1) \<Longrightarrow>
     (\<exists>x w0. m w = (Ret x, w0) \<and> f x w0 = (r, w1)) \<or>
     (\<exists>s. m w = (Return s, w1) \<and> r = Return s) \<or>
     (\<exists>e. m w = (Throw e, w1) \<and> r = Throw e) \<or>
     (\<exists>x. m w = (Fatal x, w1) \<and> r = Fatal x)"
proof -
  assume h: "bnd m f w = (r, w1)"
  obtain r0 w0 where m: "m w = (r0, w0)" by (cases "m w")
  show ?thesis
  proof (cases r0)
    case (Ret x) with h m show ?thesis by (simp add: bnd_def)
  next
    case (Return s) with h m show ?thesis by (auto simp add: bnd_def)
  next
    case (Throw e) with h m show ?thesis by (auto simp add: bnd_def)
  next
    case (Fatal x) with h m show ?thesis by (auto simp add: bnd_def)
  qed
qed

lemma emits_bnd:
  assumes m: "emits P m" and f: "\<And>x. emits P (f x)"
  shows "emits P (bnd m f)"
proof (rule emitsI)
  fix w r w1
  assume h: "bnd m f w = (r, w1)"
  from bnd_split [OF h]
  consider x w0 where "m w = (Ret x, w0)" "f x w0 = (r, w1)"
    | r0 where "m w = (r0, w1)"
    by blast
  then show "\<exists>tr. trace w1 = trace w @ tr \<and> list_all P tr"
  proof cases
    case 1
    from emitsD [OF m 1(1)] obtain t1 where t1: "trace w0 = trace w @ t1" "list_all P t1" by blast
    from emitsD [OF f 1(2)] obtain t2 where t2: "trace w1 = trace w0 @ t2" "list_all P t2" by blast
    from t1 t2 have "trace w1 = trace w @ (t1 @ t2)" "list_all P (t1 @ t2)" by simp_all
    then show ?thesis by blast
  next
    case 2
    from emitsD [OF m 2] show ?thesis .
  qed
qed

lemma emits_extCall: "P (Ext og c) \<Longrightarrow> emits P (extCall E og c)"
  by (rule emitsI) (auto simp: extCall_def emit_def split: option.splits)

lemma emits_fsCall: "P (Fs og c) \<Longrightarrow> emits P (fsCall E og c sem)"
  by (rule emitsI) (auto simp: fsCall_def emit_def split: option.splits prod.splits)

lemma assertOnException_split:
  "assertOnException m w = (r, w1) \<Longrightarrow>
     (\<exists>e. m w = (Throw e, w1) \<and> r = Throw DBException) \<or> (m w = (r, w1) \<and> (\<forall>e. r \<noteq> Throw e))"
proof -
  assume h: "assertOnException m w = (r, w1)"
  obtain r0 w0 where m: "m w = (r0, w0)" by (cases "m w")
  show ?thesis using h m by (cases r0) (auto simp: assertOnException_def)
qed

lemma emits_assertOnException: "emits P m \<Longrightarrow> emits P (assertOnException m)"
proof (rule emitsI)
  fix w r w1
  assume m: "emits P m" and h: "assertOnException m w = (r, w1)"
  from assertOnException_split [OF h] obtain r0 where "m w = (r0, w1)" by blast
  from emitsD [OF m this] show "\<exists>tr. trace w1 = trace w @ tr \<and> list_all P tr" .
qed

lemma emits_logLine: "P (Log s) \<Longrightarrow> emits P (logLine s)"
  by (rule emitsI) (auto simp add: logLine_def emit_def)

lemma emits_invariant: "emits P (invariant b)"
  by (rule emitsI) (auto simp add: invariant_def split: if_splits)

lemma emits_returnStatus: "emits P (returnStatus s)"
  by (rule emitsI) (auto simp add: returnStatus_def)

lemma emits_returnUnlessOK: "emits P (returnUnlessOK s)"
  by (rule emitsI) (auto simp add: returnUnlessOK_def split: if_splits)

lemma emits_fs_exists: "P (Fs og (Exists p)) \<Longrightarrow> emits P (fs_exists E og p)"
  unfolding fs_exists_def by (rule emits_fsCall)

lemma emits_fs_remove: "P (Fs og (Remove p)) \<Longrightarrow> emits P (fs_remove E og p)"
  unfolding fs_remove_def by (rule emits_fsCall)

lemma emits_fs_remove_all: "P (Fs og (RemoveAll p)) \<Longrightarrow> emits P (fs_remove_all E og p)"
  unfolding fs_remove_all_def by (rule emits_fsCall)

lemma emits_fs_rename: "P (Fs og (Rename a b)) \<Longrightarrow> emits P (fs_rename E og a b)"
  unfolding fs_rename_def by (rule emits_fsCall)

lemma emits_fs_copy_file: "P (Fs og (CopyFile a b)) \<Longrightarrow> emits P (fs_copy_file E og a b)"
  unfolding fs_copy_file_def by (rule emits_fsCall)

lemma emits_fs_create_directory:
  "P (Fs og (CreateDirectory p)) \<Longrightarrow> emits P (fs_create_directory E og p)"
  unfolding fs_create_directory_def by (rule emits_fsCall)

lemma emits_fs_file_size: "P (Fs og (FileSize p)) \<Longrightarrow> emits P (fs_file_size E og p)"
  unfolding fs_file_size_def by (rule emits_fsCall)

lemma boostRenameWrapper_split:
  "boostRenameWrapper E og a b w = (r, w1) \<Longrightarrow>
     (\<exists>w0. fs_rename E og a b w = (Throw filesystem_error, w0) \<and>
        bnd (fs_copy_file E og a b) (\<lambda>_. bnd (fs_remove E og a) (\<lambda>_. ret ())) w0 = (r, w1))
     \<or> (fs_rename E og a b w = (r, w1) \<and> r \<noteq> Throw filesystem_error)"
proof -
  assume h: "boostRenameWrapper E og a b w = (r, w1)"
  obtain r0 w0 where f: "fs_rename E og a b w = (r0, w0)" by (cases "fs_rename E og a b w")
  show ?thesis
  proof (cases r0)
    case (Throw e)
    with h f show ?thesis by (cases e) (auto simp: boostRenameWrapper_def)
  qed (use h f in \<open>auto simp: boostRenameWrapper_def\<close>)
qed

lemma emits_boostRenameWrapper:
  assumes "\<And>c. P (Fs og c)"
  shows "emits P (boostRenameWrapper E og a b)"
proof (rule emitsI)
  fix w r w1
  assume h: "boostRenameWrapper E og a b w = (r, w1)"
  have r: "emits P (fs_rename E og a b)" by (rule emits_fs_rename) (rule assms)
  have k: "emits P (bnd (fs_copy_file E og a b) (\<lambda>_. bnd (fs_remove E og a) (\<lambda>_. ret ())))"
    by (intro emits_bnd emits_ret emits_fs_copy_file emits_fs_remove assms)
  from boostRenameWrapper_split [OF h]
  show "\<exists>tr. trace w1 = trace w @ tr \<and> list_all P tr"
  proof
    assume "\<exists>w0. fs_rename E og a b w = (Throw filesystem_error, w0) \<and>
        bnd (fs_copy_file E og a b) (\<lambda>_. bnd (fs_remove E og a) (\<lambda>_. ret ())) w0 = (r, w1)"
    then obtain w0 where a: "fs_rename E og a b w = (Throw filesystem_error, w0)"
      and b: "bnd (fs_copy_file E og a b) (\<lambda>_. bnd (fs_remove E og a) (\<lambda>_. ret ())) w0 = (r, w1)"
      by blast
    from emitsD [OF r a] obtain t1 where t1: "trace w0 = trace w @ t1" "list_all P t1" by blast
    from emitsD [OF k b] obtain t2 where t2: "trace w1 = trace w0 @ t2" "list_all P t2" by blast
    from t1 t2 have "trace w1 = trace w @ (t1 @ t2)" "list_all P (t1 @ t2)" by simp_all
    then show ?thesis by blast
  next
    assume "fs_rename E og a b w = (r, w1) \<and> r \<noteq> Throw filesystem_error"
    then have "fs_rename E og a b w = (r, w1)" by simp
    from emitsD [OF r this] show ?thesis .
  qed
qed

lemma emits_FileOp_apply:
  assumes "\<And>c. P (Fs (originOf fo) c)"
  shows "emits P (FileOp_apply E fo q)"
proof (cases fo)
  case Deleter
  with assms show ?thesis by (auto intro!: emits_bnd emits_ret emits_fs_remove)
next
  case (Renamer np)
  with assms show ?thesis
    by (auto intro!: emits_bnd emits_ret emits_fs_exists emits_boostRenameWrapper)
next
  case (SizeAccumulator t)
  with assms show ?thesis
    by (auto intro!: emits_bnd emits_ret emits_fs_exists emits_fs_file_size)
next
  case (Replacer np)
  with assms show ?thesis
    by (auto intro!: emits_bnd emits_ret emits_fs_exists emits_boostRenameWrapper)
qed

lemma bnd_RetD:
  "bnd m f w = (Ret y, w1) \<Longrightarrow> \<exists>x w0. m w = (Ret x, w0) \<and> f x w0 = (Ret y, w1)"
  by (drule bnd_split) auto

lemma ret_eq: "ret x w = (r, w1) \<longleftrightarrow> (r = Ret x \<and> w1 = w)"
  by (auto simp: ret_def)

lemma FileOp_apply_origin:
  "FileOp_apply E fo q w = (Ret (ok, fo1), w1) \<Longrightarrow> originOf fo1 = originOf fo \<and> op fo1 = op fo"
proof (cases fo)
  case Deleter
  assume "FileOp_apply E fo q w = (Ret (ok, fo1), w1)"
  with Deleter show ?thesis by (auto dest!: bnd_RetD simp: ret_eq)
next
  case (Renamer np)
  assume "FileOp_apply E fo q w = (Ret (ok, fo1), w1)"
  with Renamer have "bnd (fs_exists E FromRenamer q) (\<lambda>ex.
       if \<not> ex then ret (False, Renamer np)
       else bnd (boostRenameWrapper E FromRenamer q (slash np (leaf q @ ''.bak'')))
              (\<lambda>_. ret (True, Renamer np))) w = (Ret (ok, fo1), w1)" by simp
  from bnd_RetD [OF this] obtain ex w0 where
    "(if \<not> ex then ret (False, Renamer np)
       else bnd (boostRenameWrapper E FromRenamer q (slash np (leaf q @ ''.bak'')))
              (\<lambda>_. ret (True, Renamer np))) w0 = (Ret (ok, fo1), w1)" by blast
  then have "fo1 = Renamer np"
    by (cases ex) (auto dest!: bnd_RetD simp: ret_eq)
  with Renamer show ?thesis by simp
next
  case (SizeAccumulator t)
  assume "FileOp_apply E fo q w = (Ret (ok, fo1), w1)"
  with SizeAccumulator have "bnd (fs_exists E FromSizeAccumulator q) (\<lambda>ex.
       if \<not> ex then ret (False, SizeAccumulator t)
       else bnd (fs_file_size E FromSizeAccumulator q)
              (\<lambda>n. ret (True, SizeAccumulator (intmax (t + int n))))) w = (Ret (ok, fo1), w1)" by simp
  from bnd_RetD [OF this] obtain ex w0 where
    "(if \<not> ex then ret (False, SizeAccumulator t)
       else bnd (fs_file_size E FromSizeAccumulator q)
              (\<lambda>n. ret (True, SizeAccumulator (intmax (t + int n))))) w0 = (Ret (ok, fo1), w1)" by blast
  then have "\<exists>t1. fo1 = SizeAccumulator t1"
    by (cases ex) (auto dest!: bnd_RetD simp: ret_eq)
  with SizeAccumulator show ?thesis by auto
next
  case (Replacer np)
  assume "FileOp_apply E fo q w = (Ret (ok, fo1), w1)"
  with Replacer have "bnd (fs_exists E FromReplacer q) (\<lambda>ex.
       if \<not> ex then ret (False, Replacer np)
       else bnd (boostRenameWrapper E FromReplacer q (slash np (leaf q)))
              (\<lambda>_. ret (True, Replacer np))) w = (Ret (ok, fo1), w1)" by simp
  from bnd_RetD [OF this] obtain ex w0 where
    "(if \<not> ex then ret (False, Replacer np)
       else bnd (boostRenameWrapper E FromReplacer q (slash np (leaf q)))
              (\<lambda>_. ret (True, Replacer np))) w0 = (Ret (ok, fo1), w1)" by blast
  then have "fo1 = Replacer np"
    by (cases ex) (auto dest!: bnd_RetD simp: ret_eq)
  with Replacer show ?thesis by simp
qed

lemma applyChecked_split:
  "applyChecked E fo q w = (r, w1) \<Longrightarrow>
     (\<exists>ok fo1 w0. assertOnException (FileOp_apply E fo q) w = (Ret (ok, fo1), w0) \<and>
        r = Ret (ok, fo1) \<and> w1 = emit (Applied (originOf fo) q ok) w0) \<or>
     (assertOnException (FileOp_apply E fo q) w = (r, w1) \<and> (\<forall>x. r \<noteq> Ret x))"
  unfolding applyChecked_def
  by (drule bnd_split) auto

lemma applyChecked_origin:
  assumes "applyChecked E fo q w = (Ret (ok, fo1), w1)"
  shows "originOf fo1 = originOf fo \<and> op fo1 = op fo"
proof -
  from applyChecked_split [OF assms] obtain w0 where
    "assertOnException (FileOp_apply E fo q) w = (Ret (ok, fo1), w0)" by auto
  from assertOnException_split [OF this] have "FileOp_apply E fo q w = (Ret (ok, fo1), w0)"
    by auto
  then show ?thesis by (rule FileOp_apply_origin)
qed

lemma emits_applyChecked:
  assumes "\<And>c. P (Fs (originOf fo) c)" and "\<And>b. P (Applied (originOf fo) q b)"
  shows "emits P (applyChecked E fo q)"
  unfolding applyChecked_def
proof (rule emits_bnd)
  show "emits P (assertOnException (FileOp_apply E fo q))"
    by (intro emits_assertOnException emits_FileOp_apply assms)
next
  fix x :: "bool \<times> FileOp"
  show "emits P (\<lambda>w. (Ret x, emit (Applied (originOf fo) q (fst x)) w))"
    by (rule emitsI) (auto simp: emit_def assms)
qed

text \<open>One turn of the loop of \<^verbatim>\<open>_applyOpToDataFiles\<close>.\<close>

lemma applyLoop_cases:
  assumes "applyLoop E fo p c i extra w = (r, w1)"
  obtains
    (over) "\<not> i \<le> MaxFiles E" "r = Throw DBException" "w1 = w"
  | (hit) fo1 w0 where "i \<le> MaxFiles E"
      "applyChecked E fo (slash p (c @ decimal i)) w = (Ret (True, fo1), w0)"
      "applyLoop E fo1 p c (Suc i) extra
         (if extra \<noteq> 10
          then emit (Log (''  _applyOpToDataFiles() warning: extra == '' @ decimalInt extra))
                 (emit (Log (op fo1 @ '' file '' @ slash p (c @ decimal i))) w0)
          else w0) = (r, w1)"
  | (last) fo1 where "i \<le> MaxFiles E"
      "applyChecked E fo (slash p (c @ decimal i)) w = (Ret (False, fo1), w1)"
      "extra - 1 \<le> 0" "r = Ret fo1"
  | (miss) fo1 w0 where "i \<le> MaxFiles E"
      "applyChecked E fo (slash p (c @ decimal i)) w = (Ret (False, fo1), w0)"
      "\<not> extra - 1 \<le> 0"
      "applyLoop E fo1 p c (Suc i) (extra - 1) w0 = (r, w1)"
  | (fail) r0 where "i \<le> MaxFiles E"
      "applyChecked E fo (slash p (c @ decimal i)) w = (r0, w1)" "\<forall>x. r0 \<noteq> Ret x"
      "\<forall>x. r \<noteq> Ret x"
proof (cases "i \<le> MaxFiles E")
  case False
  with assms have "r = Throw DBException \<and> w1 = w"
    by (subst (asm) applyLoop.simps) simp
  with False show ?thesis using over by blast
next
  case True
  obtain r0 w0 where ac: "applyChecked E fo (slash p (c @ decimal i)) w = (r0, w0)"
    by (cases "applyChecked E fo (slash p (c @ decimal i)) w")
  show ?thesis
  proof (cases r0)
    case (Ret x)
    obtain ok fo1 where x: "x = (ok, fo1)" by (cases x)
    from assms True ac Ret x have u:
      "(if ok then
          (if extra \<noteq> 10 then
             applyLoop E fo1 p c (Suc i) extra
               (emit (Log (''  _applyOpToDataFiles() warning: extra == '' @ decimalInt extra))
                 (emit (Log (op fo1 @ '' file '' @ slash p (c @ decimal i))) w0))
           else applyLoop E fo1 p c (Suc i) extra w0)
        else if extra - 1 \<le> 0 then (Ret fo1, w0)
        else applyLoop E fo1 p c (Suc i) (extra - 1) w0) = (r, w1)"
      by (subst (asm) applyLoop.simps) simp
    show ?thesis
    proof (cases ok)
      case okT: True
      with u have "applyLoop E fo1 p c (Suc i) extra
         (if extra \<noteq> 10
          then emit (Log (''  _applyOpToDataFiles() warning: extra == '' @ decimalInt extra))
                 (emit (Log (op fo1 @ '' file '' @ slash p (c @ decimal i))) w0)
          else w0) = (r, w1)" by (simp split: if_splits)
      moreover have "applyChecked E fo (slash p (c @ decimal i)) w = (Ret (True, fo1), w0)"
        using ac Ret x okT by simp
      ultimately show ?thesis using True by (intro hit)
    next
      case okF: False
      show ?thesis
      proof (cases "extra - 1 \<le> 0")
        case e: True
        with u okF have "r = Ret fo1" and \<open>w0 = w1\<close> by simp_all
        moreover have "applyChecked E fo (slash p (c @ decimal i)) w = (Ret (False, fo1), w1)"
          using ac Ret x okF \<open>w0 = w1\<close> by simp
        ultimately show ?thesis using True e by (intro last)
      next
        case e: False
        with u okF have "applyLoop E fo1 p c (Suc i) (extra - 1) w0 = (r, w1)" by simp
        moreover have "applyChecked E fo (slash p (c @ decimal i)) w = (Ret (False, fo1), w0)"
          using ac Ret x okF by simp
        ultimately show ?thesis using True e by (intro miss)
      qed
    qed
  next
    case (Return s)
    with assms True ac have "r = Return s \<and> w1 = w0"
      by (subst (asm) applyLoop.simps) simp
    with True ac Return show ?thesis using fail by blast
  next
    case (Throw e)
    with assms True ac have "r = Throw e \<and> w1 = w0"
      by (subst (asm) applyLoop.simps) simp
    with True ac Throw show ?thesis using fail by blast
  next
    case (Fatal x)
    with assms True ac have "r = Fatal x \<and> w1 = w0"
      by (subst (asm) applyLoop.simps) simp
    with True ac Fatal show ?thesis using fail by blast
  qed
qed

lemma applyLoop_emits:
  assumes P: "\<And>c. P (Fs og c)" "\<And>q b. P (Applied og q b)" "\<And>s. P (Log s)"
  shows "applyLoop E fo p c i extra w = (r, w1) \<Longrightarrow> originOf fo = og \<Longrightarrow>
           \<exists>tr. trace w1 = trace w @ tr \<and> list_all P tr"
proof (induction n \<equiv> "Suc (MaxFiles E) - i" arbitrary: i fo extra w)
  case 0
  from "0.prems"(1) show ?case
  proof (cases rule: applyLoop_cases)
    case over then show ?thesis by simp
  qed (use 0 in simp_all)
next
  case (Suc n)
  have ac: "emits P (applyChecked E fo q)" for q
    using Suc.prems(2) P by (intro emits_applyChecked) simp_all
  from Suc.prems(1) show ?case
  proof (cases rule: applyLoop_cases)
    case over then show ?thesis by simp
  next
    case (hit fo1 w0)
    from emitsD [OF ac hit(2)] obtain t0 where t0: "trace w0 = trace w @ t0" "list_all P t0"
      by blast
    let ?w = "if extra \<noteq> 10
          then emit (Log (''  _applyOpToDataFiles() warning: extra == '' @ decimalInt extra))
                 (emit (Log (op fo1 @ '' file '' @ slash p (c @ decimal i))) w0)
          else w0"
    have og: "originOf fo1 = og" using applyChecked_origin [OF hit(2)] Suc.prems(2) by simp
    have n: "n = Suc (MaxFiles E) - Suc i" using Suc.hyps(2) by simp
    from Suc.hyps(1) [OF n hit(3) og] obtain t1 where
      t1: "trace w1 = trace ?w @ t1" "list_all P t1" by blast
    obtain t2 where t2: "trace ?w = trace w0 @ t2" "list_all P t2"
      by (cases "extra \<noteq> 10") (simp_all add: emit_def P)
    from t0 t1 t2 have "trace w1 = trace w @ (t0 @ t2 @ t1)" "list_all P (t0 @ t2 @ t1)"
      by simp_all
    then show ?thesis by blast
  next
    case (last fo1)
    from emitsD [OF ac last(2)] show ?thesis .
  next
    case (miss fo1 w0)
    from emitsD [OF ac miss(2)] obtain t0 where t0: "trace w0 = trace w @ t0" "list_all P t0"
      by blast
    have og: "originOf fo1 = og" using applyChecked_origin [OF miss(2)] Suc.prems(2) by simp
    have n: "n = Suc (MaxFiles E) - Suc i" using Suc.hyps(2) by simp
    from Suc.hyps(1) [OF n miss(4) og] obtain t1 where
      t1: "trace w1 = trace w0 @ t1" "list_all P t1" by blast
    from t0 t1 have "trace w1 = trace w @ (t0 @ t1)" "list_all P (t0 @ t1)" by simp_all
    then show ?thesis by blast
  next
    case (fail r0)
    from emitsD [OF ac fail(2)] show ?thesis .
  qed
qed

lemma emits_applyLoop:
  assumes "\<And>c. P (Fs (originOf fo) c)" "\<And>q b. P (Applied (originOf fo) q b)" "\<And>s. P (Log s)"
  shows "emits P (applyLoop E fo p c i extra)"
  by (rule emitsI) (rule applyLoop_emits [where og = "originOf fo" and P = P], (rule assms refl | assumption)+)

lemma emits_applyOpToDataFiles:
  assumes "\<And>c. P (Fs (originOf fo) c)" "\<And>q b. P (Applied (originOf fo) q b)" "\<And>s. P (Log s)"
    and "afterAllocator \<Longrightarrow> P (Ext (originOf fo) WaitUntilFinished)"
  shows "emits P (applyOpToDataFiles E database fo afterAllocator pth)"
  unfolding applyOpToDataFiles_def
proof (rule emits_bnd)
  show "emits P (if afterAllocator then extCall E (originOf fo) WaitUntilFinished else ret ())"
    using assms(4) by (auto intro: emits_extCall emits_ret)
next
  fix u :: unit
  let ?q = "slash (if directoryperdb E then slash pth database else pth) ((database @ ''.'') @ ''ns'')"
  show "emits P (bnd (applyChecked E fo ?q)
         (\<lambda>r. bnd (if fst r then logLine (op (snd r) @ '' file '' @ ?q) else ret ())
           (\<lambda>_. applyLoop E (snd r) (if directoryperdb E then slash pth database else pth)
                   (database @ ''.'') 0 10)))"
  proof (rule emitsI)
    fix w r w1
    assume h: "bnd (applyChecked E fo ?q)
         (\<lambda>r. bnd (if fst r then logLine (op (snd r) @ '' file '' @ ?q) else ret ())
           (\<lambda>_. applyLoop E (snd r) (if directoryperdb E then slash pth database else pth)
                   (database @ ''.'') 0 10)) w = (r, w1)"
    have ac: "emits P (applyChecked E fo ?q)" by (intro emits_applyChecked assms)
    from bnd_split [OF h]
    consider x w0 where "applyChecked E fo ?q w = (Ret x, w0)"
        "bnd (if fst x then logLine (op (snd x) @ '' file '' @ ?q) else ret ())
           (\<lambda>_. applyLoop E (snd x) (if directoryperdb E then slash pth database else pth)
                   (database @ ''.'') 0 10) w0 = (r, w1)"
      | r0 where "applyChecked E fo ?q w = (r0, w1)" by blast
    then show "\<exists>tr. trace w1 = trace w @ tr \<and> list_all P tr"
    proof cases
      case 1
      obtain ok fo1 where x: "x = (ok, fo1)" by (cases x)
      have og: "originOf fo1 = originOf fo" using applyChecked_origin [of E fo ?q w ok fo1 w0] 1(1) x by simp
      have "emits P (bnd (if fst x then logLine (op (snd x) @ '' file '' @ ?q) else ret ())
           (\<lambda>_. applyLoop E (snd x) (if directoryperdb E then slash pth database else pth)
                   (database @ ''.'') 0 10))"
        using og x assms(1-3)
        by (intro emits_bnd emits_applyLoop) (auto intro: emits_logLine emits_ret)
      from emitsD [OF this 1(2)] obtain t2 where t2: "trace w1 = trace w0 @ t2" "list_all P t2" by blast
      from emitsD [OF ac 1(1)] obtain t1 where t1: "trace w0 = trace w @ t1" "list_all P t1" by blast
      from t1 t2 have "trace w1 = trace w @ (t1 @ t2)" "list_all P (t1 @ t2)" by simp_all
      then show ?thesis by blast
    next
      case 2
      from emitsD [OF ac 2] show ?thesis .
    qed
  qed
qed

lemma extCall_trace: "extCall E og c w = (r, w1) \<Longrightarrow> trace w1 = trace w @ [Ext og c]"
  by (auto simp: extCall_def emit_def split: option.splits)

lemma bnd_extCall_first:
  assumes "bnd (extCall E og c) f w = (r, w1)" and "\<And>x. emits (\<lambda>_. True) (f x)"
  shows "\<exists>tr. trace w1 = trace w @ Ext og c # tr"
proof -
  from bnd_split [OF assms(1)]
  consider x w0 where "extCall E og c w = (Ret x, w0)" "f x w0 = (r, w1)"
    | r0 where "extCall E og c w = (r0, w1)" by blast
  then show ?thesis
  proof cases
    case 1
    from emitsD [OF assms(2) 1(2)] obtain t where "trace w1 = trace w0 @ t" by blast
    with extCall_trace [OF 1(1)] show ?thesis by simp
  next
    case 2
    with extCall_trace [OF 2] show ?thesis by simp
  qed
qed

lemma emits_any_applyOpToDataFiles:
  "emits (\<lambda>_. True) (applyOpToDataFiles E database fo afterAllocator pth)"
  by (rule emits_applyOpToDataFiles) simp_all

lemma applyOpToDataFiles_waits:
  assumes "applyOpToDataFiles E database fo True pth w = (r, w1)"
  shows "\<exists>tr. trace w1 = trace w @ Ext (originOf fo) WaitUntilFinished # tr"
proof -
  have e: "emits (\<lambda>_. True)
      (bnd (applyChecked E fo q) (\<lambda>r. bnd (if fst r then logLine (s r) else ret ())
         (\<lambda>_. applyLoop E (snd r) p c 0 10)))" for q s p c
  proof (rule emitsI)
    fix w r w1
    assume h: "bnd (applyChecked E fo q) (\<lambda>r. bnd (if fst r then logLine (s r) else ret ())
         (\<lambda>_. applyLoop E (snd r) p c 0 10)) w = (r, w1)"
    have ac: "emits (\<lambda>_. True) (applyChecked E fo q)" by (rule emits_applyChecked) simp_all
    have k: "emits (\<lambda>_. True) (bnd (if fst x then logLine (s x) else ret ())
         (\<lambda>_. applyLoop E (snd x) p c 0 10))" for x
      by (intro emits_bnd emits_applyLoop) (auto intro: emits_logLine emits_ret)
    have "emits (\<lambda>_. True) (bnd (applyChecked E fo q) (\<lambda>r. bnd (if fst r then logLine (s r) else ret ())
         (\<lambda>_. applyLoop E (snd r) p c 0 10)))"
      by (rule emits_bnd [OF ac k])
    from emitsD [OF this h] show "\<exists>tr. trace w1 = trace w @ tr \<and> list_all (\<lambda>_. True) tr" .
  qed
  from assms show ?thesis
    unfolding applyOpToDataFiles_def
    by (simp only: if_True) (rule bnd_extCall_first, assumption, rule e)
qed

definition noWait :: "event \<Rightarrow> bool" where
  "noWait e = (\<forall>og. e \<noteq> Ext og WaitUntilFinished)"

lemma applyOpToDataFiles_no_wait:
  "emits noWait (applyOpToDataFiles E database fo False pth)"
  by (rule emits_applyOpToDataFiles) (simp_all add: noWait_def)

lemma list_all_noWait: "list_all noWait tr \<Longrightarrow> Ext og WaitUntilFinished \<notin> set tr"
  by (auto simp: list_all_iff noWait_def)

text \<open>An environment in which the allocator is still creating \<^verbatim>\<open>a.1\<close>: the size
  measured without waiting leaves that file out.\<close>

definition env1 :: env where
  "env1 = \<lparr>dbpath = ''/d'', repairpath = ''/r'', directoryperdb = False, MaxFiles = 16000,
     fault = (\<lambda>h e. None),
     extEffect = (\<lambda>e f. case e of
        Ext og WaitUntilFinished \<Rightarrow>
          (if lookup f ''/d/a.1'' = None then f @ [(''/d/a.1'', File 64)] else f)
      | _ \<Rightarrow> f),
     freeSpace = 1000, ccDatabaseName = ''a'', ccDatabasePath = ''/d'',
     originalDatabase = None,
     justCreated = True, isNormal = (\<lambda>ns. CHR ''$'' \<notin> set ns), parse = (\<lambda>ob. Status OK []),
     initResult = (\<lambda>ns sp. Status OK []), insertResult = (\<lambda>ns d. Status OK []),
     commitResult = (\<lambda>ns. Status OK [])\<rparr>"

definition state1 :: state where
  "state1 = \<lparr>fs = [(''/d/a.ns'', File 16), (''/d/a.0'', File 64)], inDBRepair = False,
     trace = [], repairFileDeleter = None\<rparr>"

lemmas run_defs = applyChecked_def assertOnException_def bnd_def fs_exists_def fs_file_size_def
  fsCall_def lookup_def emit_def ret_def applyOpToDataFiles_def applyLoop.simps decimal.simps
  digit_def slash_def extCall_def logLine_def decimalInt_def intmax_def

lemma uniqueReservedPath_loop_Ret:
  "uniqueReservedPath_loop E prefix i w = (Ret p, w1) \<Longrightarrow>
     \<exists>n\<ge>i. p = reservedName E prefix n \<and> lookup (fs w) p = None \<and>
       (\<forall>m. i \<le> m \<and> m < n \<longrightarrow> lookup (fs w) (reservedName E prefix m) \<noteq> None) \<and>
       fs w1 = fs w"
proof (induction E prefix i w rule: uniqueReservedPath_loop.induct)
  case (1 E prefix i w)
  obtain r0 w0 where a: "assertOnException
      (fs_exists E From_uniqueReservedPath (reservedName E prefix i)) w = (r0, w0)"
    by (cases "assertOnException (fs_exists E From_uniqueReservedPath (reservedName E prefix i)) w")
  show ?case
  proof (cases r0)
    case (Ret ex)
    note f = fs_exists_Ret [OF a [unfolded Ret]]
    show ?thesis
    proof (cases ex)
      case True
      with "1.prems" a Ret have "uniqueReservedPath_loop E prefix (Suc i) w0 = (Ret p, w1)"
        by (subst (asm) uniqueReservedPath_loop.simps) simp
      from "1.IH" [OF a [symmetric] Ret True this] obtain n where
        n: "Suc i \<le> n" "p = reservedName E prefix n" "lookup (fs w0) p = None"
          "\<forall>m. Suc i \<le> m \<and> m < n \<longrightarrow> lookup (fs w0) (reservedName E prefix m) \<noteq> None"
          "fs w1 = fs w0" by blast
      have "\<forall>m. i \<le> m \<and> m < n \<longrightarrow> lookup (fs w) (reservedName E prefix m) \<noteq> None"
      proof (intro allI impI)
        fix m assume m: "i \<le> m \<and> m < n"
        show "lookup (fs w) (reservedName E prefix m) \<noteq> None"
        proof (cases "m = i")
          case True with f \<open>ex\<close> show ?thesis by simp
        next
          case False with m n(4) f show ?thesis by simp
        qed
      qed
      with n f show ?thesis by (intro exI [of _ n]) simp
    next
      case False
      with "1.prems" a Ret have "p = reservedName E prefix i" "w1 = w0"
        by (subst (asm) uniqueReservedPath_loop.simps, simp)+
      with f False show ?thesis by (intro exI [of _ i]) auto
    qed
  qed (use "1.prems" a in \<open>subst (asm) uniqueReservedPath_loop.simps, simp\<close>)+
qed

lemma fs_exists_no_fault:
  "fault E (trace w) (Fs og (Exists p)) = None \<Longrightarrow>
     \<exists>w0. assertOnException (fs_exists E og p) w = (Ret (lookup (fs w) p \<noteq> None), w0)"
  by (simp add: assertOnException_def fs_exists_def fsCall_def)

lemma uniqueReservedPath_loop_total:
  "\<forall>h q. fault E h (Fs From_uniqueReservedPath (Exists q)) = None \<Longrightarrow>
     \<exists>p w1. uniqueReservedPath_loop E prefix i w = (Ret p, w1)"
proof (induction E prefix i w rule: uniqueReservedPath_loop.induct)
  case (1 E prefix i w)
  have nf: "fault E (trace w) (Fs From_uniqueReservedPath (Exists (reservedName E prefix i))) = None"
    using "1.prems" by blast
  from fs_exists_no_fault [OF nf]
  obtain w0 where a: "assertOnException
      (fs_exists E From_uniqueReservedPath (reservedName E prefix i)) w =
        (Ret (lookup (fs w) (reservedName E prefix i) \<noteq> None), w0)" by blast
  show ?case
  proof (cases "lookup (fs w) (reservedName E prefix i) \<noteq> None")
    case True
    from "1.IH" [OF a [symmetric] refl True "1.prems"] obtain p w1 where
      "uniqueReservedPath_loop E prefix (Suc i) w0 = (Ret p, w1)" by blast
    with a True have "uniqueReservedPath_loop E prefix i w = (Ret p, w1)"
      by (subst uniqueReservedPath_loop.simps) simp
    then show ?thesis by blast
  next
    case False
    with a have "uniqueReservedPath_loop E prefix i w = (Ret (reservedName E prefix i), w0)"
      by (subst uniqueReservedPath_loop.simps) simp
    then show ?thesis by blast
  qed
qed

text \<open>
  Claim C8.  When \<^verbatim>\<open>uniqueReservedPath(prefix)\<close> returns, the path is
  \<^verbatim>\<open>repairpath/<prefix>_repairDatabase_<n>\<close> for the least \<open>n\<close> whose path does not
  exist; it does return unless a probe throws; and the path \<^verbatim>\<open>repairDatabase\<close> reserves
  has the prefix \<^verbatim>\<open>backup\<close> exactly when one of the two flags is set, \<^verbatim>\<open>_tmp\<close>
  otherwise.
\<close>

theorem uniqueReservedPath_least_free:
  "(uniqueReservedPath E prefix w = (Ret p, w1) \<longrightarrow>
      (\<exists>n. p = slash (repairpath E) (prefix @ ''_repairDatabase_'' @ decimal n) \<and>
         lookup (fs w) p = None \<and>
         (\<forall>m<n. lookup (fs w)
            (slash (repairpath E) (prefix @ ''_repairDatabase_'' @ decimal m)) \<noteq> None)))
   \<and> ((\<forall>h q. fault E h (Fs From_uniqueReservedPath (Exists q)) = None) \<longrightarrow>
        (\<exists>p0 w0. uniqueReservedPath E prefix w = (Ret p0, w0)))
   \<and> (repairDatabase_reserve E dbName preserveClonedFilesOnFailure backupOriginalFiles w
         = (Ret p2, w2) \<longrightarrow>
        (\<exists>n. p2 = slash (repairpath E)
           ((if preserveClonedFilesOnFailure \<or> backupOriginalFiles then ''backup'' else ''_tmp'')
             @ ''_repairDatabase_'' @ decimal n)))"
proof (intro conjI impI)
  assume "uniqueReservedPath E prefix w = (Ret p, w1)"
  from uniqueReservedPath_loop_Ret [OF this [unfolded uniqueReservedPath_def]]
  show "\<exists>n. p = slash (repairpath E) (prefix @ ''_repairDatabase_'' @ decimal n) \<and>
         lookup (fs w) p = None \<and>
         (\<forall>m<n. lookup (fs w)
            (slash (repairpath E) (prefix @ ''_repairDatabase_'' @ decimal m)) \<noteq> None)"
    unfolding reservedName_def by auto
next
  assume "\<forall>h q. fault E h (Fs From_uniqueReservedPath (Exists q)) = None"
  from uniqueReservedPath_loop_total [OF this]
  show "\<exists>p0 w0. uniqueReservedPath E prefix w = (Ret p0, w0)"
    unfolding uniqueReservedPath_def .
next
  let ?prefix = "if preserveClonedFilesOnFailure \<or> backupOriginalFiles then ''backup'' else ''_tmp''"
  assume h: "repairDatabase_reserve E dbName preserveClonedFilesOnFailure backupOriginalFiles w
         = (Ret p2, w2)"
  from bnd_RetD [OF h [unfolded repairDatabase_reserve_def]] obtain wa where
    "bnd (uniqueReservedPath E ?prefix)
         (\<lambda>reservedPath.
            bnd (assertOnException (fs_create_directory E From_repairDatabase reservedPath))
              (\<lambda>_ w. if \<not> preserveClonedFilesOnFailure
                      then (Ret reservedPath,
                            w\<lparr>repairFileDeleter :=
                                Some \<lparr>g_dbName = dbName, g_pathString = reservedPath,
                                      g_path = reservedPath, g_success = False\<rparr>\<rparr>)
                      else (Ret reservedPath, w))) wa = (Ret p2, w2)" by blast
  from bnd_RetD [OF this] obtain rp wb where
    u: "uniqueReservedPath E ?prefix wa = (Ret rp, wb)" and
    "bnd (assertOnException (fs_create_directory E From_repairDatabase rp))
              (\<lambda>_ w. if \<not> preserveClonedFilesOnFailure
                      then (Ret rp,
                            w\<lparr>repairFileDeleter :=
                                Some \<lparr>g_dbName = dbName, g_pathString = rp,
                                      g_path = rp, g_success = False\<rparr>\<rparr>)
                      else (Ret rp, w)) wb = (Ret p2, w2)" by blast
  from bnd_RetD [OF this(2)] have "p2 = rp" by (auto split: if_splits)
  with uniqueReservedPath_loop_Ret [OF u [unfolded uniqueReservedPath_def]]
  show "\<exists>n. p2 = slash (repairpath E) (?prefix @ ''_repairDatabase_'' @ decimal n)"
    unfolding reservedName_def by blast
qed

definition state2 :: state where
  "state2 = \<lparr>fs = [(''/r/backup_repairDatabase_0'', Dir), (''/r/backup_repairDatabase_1'', Dir),
       (''/r/backup_repairDatabase_3'', Dir)],
     inDBRepair = False, trace = [], repairFileDeleter = None\<rparr>"

theorem uniqueReservedPath_least_free_witness:
  "fst (uniqueReservedPath env1 ''backup'' state2) = Ret ''/r/backup_repairDatabase_2''
   \<and> fst (repairDatabase_reserve env1 ''a'' False False state2) = Ret ''/r/_tmp_repairDatabase_0''
   \<and> fst (repairDatabase_reserve env1 ''a'' True False state2) = Ret ''/r/backup_repairDatabase_2''
   \<and> (\<exists>n. ''/r/backup_repairDatabase_2'' = slash (repairpath env1) (''backup'' @ ''_repairDatabase_'' @ decimal n) \<and>
         lookup (fs state2) ''/r/backup_repairDatabase_2'' = None)"
proof -
  have a': "fst (uniqueReservedPath env1 ''backup'' state2) = Ret ''/r/backup_repairDatabase_2''"
    by (simp add: uniqueReservedPath_def uniqueReservedPath_loop.simps reservedName_def
        run_defs env1_def state2_def)
  have a: "uniqueReservedPath env1 ''backup'' state2 =
     (Ret ''/r/backup_repairDatabase_2'', snd (uniqueReservedPath env1 ''backup'' state2))"
    using a' by (cases "uniqueReservedPath env1 ''backup'' state2") simp
  have b: "fst (repairDatabase_reserve env1 ''a'' False False state2) = Ret ''/r/_tmp_repairDatabase_0''"
    by (simp add: repairDatabase_reserve_def uniqueReservedPath_def uniqueReservedPath_loop.simps
        reservedName_def fs_create_directory_def run_defs env1_def state2_def)
  have c: "fst (repairDatabase_reserve env1 ''a'' True False state2) = Ret ''/r/backup_repairDatabase_2''"
    by (simp add: repairDatabase_reserve_def uniqueReservedPath_def uniqueReservedPath_loop.simps
        reservedName_def fs_create_directory_def run_defs env1_def state2_def)
  from uniqueReservedPath_least_free [of env1 "''backup''" state2 "''/r/backup_repairDatabase_2''"
      "snd (uniqueReservedPath env1 ''backup'' state2)"] a
  have "\<exists>n. ''/r/backup_repairDatabase_2'' = slash (repairpath env1) (''backup'' @ ''_repairDatabase_'' @ decimal n) \<and>
         lookup (fs state2) ''/r/backup_repairDatabase_2'' = None" by blast
  with a' b c show ?thesis by blast
qed

text \<open>The answers of the operation that a piece of trace records, in order.\<close>

fun appliedOf :: "event \<Rightarrow> (path \<times> bool) list" where
  "appliedOf (Applied og q b) = [(q, b)]"
| "appliedOf e = []"

definition applied :: "event list \<Rightarrow> (path \<times> bool) list" where
  "applied tr = concat (map appliedOf tr)"

text \<open>
  The loop as the specification words it, for comparison: a handled file resets the
  counter to its initial value.
\<close>

function applyLoop_spec ::
  "env \<Rightarrow> FileOp \<Rightarrow> path \<Rightarrow> string \<Rightarrow> nat \<Rightarrow> int \<Rightarrow> FileOp prog" where
  "applyLoop_spec E fo p c i extra w =
     (if \<not> i \<le> MaxFiles E then (Throw DBException, w)
      else
        (case applyChecked E fo (slash p (c @ decimal i)) w of
           (Ret (ok, fo1), w1) \<Rightarrow>
             if ok then applyLoop_spec E fo1 p c (Suc i) 10 w1
             else if extra - 1 \<le> 0 then (Ret fo1, w1)
             else applyLoop_spec E fo1 p c (Suc i) (extra - 1) w1
         | (Return s, w1) \<Rightarrow> (Return s, w1)
         | (Throw e, w1) \<Rightarrow> (Throw e, w1)
         | (Fatal x, w1) \<Rightarrow> (Fatal x, w1)))"
  by pat_completeness auto
termination
  by (relation "measure (\<lambda>(E, fo, p, c, i, extra, w). Suc (MaxFiles E) - i)") auto

declare applyLoop_spec.simps [simp del]

lemma applied_append: "applied (a @ b) = applied a @ applied b"
  by (simp add: applied_def)

lemma applied_none: "list_all (\<lambda>e. appliedOf e = []) t \<Longrightarrow> applied t = []"
  by (induction t) (simp_all add: applied_def)

lemma applyChecked_applied:
  assumes "applyChecked E fo q w = (Ret (ok, fo1), w0)"
  shows "\<exists>t. trace w0 = trace w @ t \<and> applied t = [(q, ok)]"
proof -
  from applyChecked_split [OF assms] obtain wa where
    a: "assertOnException (FileOp_apply E fo q) w = (Ret (ok, fo1), wa)"
    and w0: "w0 = emit (Applied (originOf fo) q ok) wa" by auto
  have "emits (\<lambda>e. appliedOf e = []) (assertOnException (FileOp_apply E fo q))"
    by (intro emits_assertOnException emits_FileOp_apply) simp
  from emitsD [OF this a] obtain t where t: "trace wa = trace w @ t" "applied t = []"
    using applied_none by blast
  from t w0 have "trace w0 = trace w @ (t @ [Applied (originOf fo) q ok])"
    "applied (t @ [Applied (originOf fo) q ok]) = [(q, ok)]"
    by (simp_all add: emit_def applied_append) (simp add: applied_def)
  then show ?thesis by blast
qed

lemma upt_shift: "[i ..< i + Suc k] = i # [Suc i ..< Suc i + k]"
  by (subst upt_rec) simp

lemma applyLoop_misses:
  "applyLoop E fo p c i extra w = (Ret fo2, w1) \<Longrightarrow> 0 < extra \<Longrightarrow>
     \<exists>t. trace w1 = trace w @ t \<and>
       map fst (applied t) = map (\<lambda>k. slash p (c @ decimal k)) [i ..< i + length (applied t)] \<and>
       int (length (filter (\<lambda>x. \<not> snd x) (applied t))) = extra \<and>
       applied t \<noteq> [] \<and> \<not> snd (last (applied t)) \<and>
       i + length (applied t) \<le> Suc (MaxFiles E)"
proof (induction n \<equiv> "Suc (MaxFiles E) - i" arbitrary: i fo extra w)
  case 0
  from "0.prems"(1) show ?case
  proof (cases rule: applyLoop_cases)
    case over then show ?thesis by simp
  qed (use 0 in simp_all)
next
  case (Suc n)
  have n: "n = Suc (MaxFiles E) - Suc i" using Suc.hyps(2) by simp
  from Suc.prems(1) show ?case
  proof (cases rule: applyLoop_cases)
    case over then show ?thesis by simp
  next
    case (hit fo1 w0)
    from applyChecked_applied [OF hit(2)] obtain t0 where
      t0: "trace w0 = trace w @ t0" "applied t0 = [(slash p (c @ decimal i), True)]" by blast
    let ?w = "if extra \<noteq> 10
          then emit (Log (''  _applyOpToDataFiles() warning: extra == '' @ decimalInt extra))
                 (emit (Log (op fo1 @ '' file '' @ slash p (c @ decimal i))) w0)
          else w0"
    obtain t2 where t2: "trace ?w = trace w0 @ t2" "applied t2 = []"
      by (cases "extra \<noteq> 10") (simp_all add: emit_def applied_def)
    from Suc.hyps(1) [OF n hit(3) Suc.prems(2)] obtain t1 where
      t1: "trace w1 = trace ?w @ t1"
        "map fst (applied t1) = map (\<lambda>k. slash p (c @ decimal k)) [Suc i ..< Suc i + length (applied t1)]"
        "int (length (filter (\<lambda>x. \<not> snd x) (applied t1))) = extra"
        "applied t1 \<noteq> []" "\<not> snd (last (applied t1))"
        "Suc i + length (applied t1) \<le> Suc (MaxFiles E)" by blast
    let ?t = "t0 @ t2 @ t1"
    have a: "applied ?t = (slash p (c @ decimal i), True) # applied t1"
      using t0 t2 by (simp add: applied_append)
    have "trace w1 = trace w @ ?t" using t0 t1 t2 by simp
    moreover have "map fst (applied ?t) =
        map (\<lambda>k. slash p (c @ decimal k)) [i ..< i + length (applied ?t)]"
      using t1(2) unfolding a by (simp only: list.map length_Cons upt_shift fst_conv)
    moreover have "int (length (filter (\<lambda>x. \<not> snd x) (applied ?t))) = extra"
      using t1(3) by (simp add: a)
    moreover have "applied ?t \<noteq> []" "\<not> snd (last (applied ?t))"
      "i + length (applied ?t) \<le> Suc (MaxFiles E)"
      using t1(4,5,6) by (simp_all add: a)
    ultimately show ?thesis by blast
  next
    case (last fo1)
    from applyChecked_applied [OF last(2)] obtain t0 where
      t0: "trace w1 = trace w @ t0" "applied t0 = [(slash p (c @ decimal i), False)]" by blast
    from last(3) Suc.prems(2) have "extra = 1" by simp
    with t0 last(1) show ?thesis by (intro exI [of _ t0]) simp
  next
    case (miss fo1 w0)
    from applyChecked_applied [OF miss(2)] obtain t0 where
      t0: "trace w0 = trace w @ t0" "applied t0 = [(slash p (c @ decimal i), False)]" by blast
    from miss(3) have "0 < extra - 1" by simp
    from Suc.hyps(1) [OF n miss(4) this] obtain t1 where
      t1: "trace w1 = trace w0 @ t1"
        "map fst (applied t1) = map (\<lambda>k. slash p (c @ decimal k)) [Suc i ..< Suc i + length (applied t1)]"
        "int (length (filter (\<lambda>x. \<not> snd x) (applied t1))) = extra - 1"
        "applied t1 \<noteq> []" "\<not> snd (last (applied t1))"
        "Suc i + length (applied t1) \<le> Suc (MaxFiles E)" by blast
    let ?t = "t0 @ t1"
    have a: "applied ?t = (slash p (c @ decimal i), False) # applied t1"
      using t0 by (simp add: applied_append)
    have "trace w1 = trace w @ ?t" using t0 t1 by simp
    moreover have "map fst (applied ?t) =
        map (\<lambda>k. slash p (c @ decimal k)) [i ..< i + length (applied ?t)]"
      using t1(2) unfolding a by (simp only: list.map length_Cons upt_shift fst_conv)
    moreover have "int (length (filter (\<lambda>x. \<not> snd x) (applied ?t))) = extra"
      using t1(3) by (simp add: a)
    moreover have "applied ?t \<noteq> []" "\<not> snd (last (applied ?t))"
      "i + length (applied ?t) \<le> Suc (MaxFiles E)"
      using t1(4,5,6) by (simp_all add: a)
    ultimately show ?thesis by blast
  next
    case (fail r0)
    then show ?thesis by simp
  qed
qed

lemma applyLoop_hit:
  assumes "i \<le> MaxFiles E"
    and "applyChecked E fo (slash p (c @ decimal i)) w = (Ret (True, fo1), w0)"
  shows "applyLoop E fo p c i extra w =
     applyLoop E fo1 p c (Suc i) extra
       (if extra \<noteq> 10
        then emit (Log (''  _applyOpToDataFiles() warning: extra == '' @ decimalInt extra))
               (emit (Log (op fo1 @ '' file '' @ slash p (c @ decimal i))) w0)
        else w0)"
  using assms by (subst applyLoop.simps) simp

lemma applyLoop_miss:
  assumes "i \<le> MaxFiles E"
    and "applyChecked E fo (slash p (c @ decimal i)) w = (Ret (False, fo1), w0)"
  shows "applyLoop E fo p c i extra w =
     (if extra - 1 \<le> 0 then (Ret fo1, w0) else applyLoop E fo1 p c (Suc i) (extra - 1) w0)"
  using assms by (subst applyLoop.simps) simp

lemma applyLoop_over:
  "MaxFiles E < i \<Longrightarrow> applyLoop E fo p c i extra w = (Throw DBException, w)"
  by (subst applyLoop.simps) simp


text \<open>
  Claim C2, as amended.  A handled file leaves the miss counter as it is (it is never
  reset to 10); a missing file decrements it and the enumeration stops when it reaches
  zero; past \<^verbatim>\<open>MaxFiles\<close> the loop's assertion fails.  So an enumeration that ends
  normally has applied the operation to the numbers \<open>0, 1, \<dots>\<close> in order and has met
  exactly 10 missing numbers in all, consecutive or not, the last number being missing.
\<close>

theorem applyLoop_stops_at_tenth_miss:
  "(i \<le> MaxFiles E \<and> applyChecked E fo (slash p (c @ decimal i)) w = (Ret (True, fo1), w0) \<longrightarrow>
      applyLoop E fo p c i extra w =
        applyLoop E fo1 p c (Suc i) extra
          (if extra \<noteq> 10
           then emit (Log (''  _applyOpToDataFiles() warning: extra == '' @ decimalInt extra))
                  (emit (Log (op fo1 @ '' file '' @ slash p (c @ decimal i))) w0)
           else w0))
   \<and> (i \<le> MaxFiles E \<and> applyChecked E fo (slash p (c @ decimal i)) w = (Ret (False, fo1), w0) \<longrightarrow>
      applyLoop E fo p c i extra w =
        (if extra - 1 \<le> 0 then (Ret fo1, w0) else applyLoop E fo1 p c (Suc i) (extra - 1) w0))
   \<and> (MaxFiles E < i \<longrightarrow> applyLoop E fo p c i extra w = (Throw DBException, w))
   \<and> (applyLoop E fo p c 0 10 w = (Ret fo2, w1) \<longrightarrow>
        (\<exists>t. trace w1 = trace w @ t \<and>
           map fst (applied t) = map (\<lambda>k. slash p (c @ decimal k)) [0 ..< length (applied t)] \<and>
           length (filter (\<lambda>x. \<not> snd x) (applied t)) = 10 \<and>
           \<not> snd (last (applied t)) \<and>
           length (applied t) \<le> Suc (MaxFiles E)))"
proof (intro conjI impI)
  assume "i \<le> MaxFiles E \<and> applyChecked E fo (slash p (c @ decimal i)) w = (Ret (True, fo1), w0)"
  then show "applyLoop E fo p c i extra w =
        applyLoop E fo1 p c (Suc i) extra
          (if extra \<noteq> 10
           then emit (Log (''  _applyOpToDataFiles() warning: extra == '' @ decimalInt extra))
                  (emit (Log (op fo1 @ '' file '' @ slash p (c @ decimal i))) w0)
           else w0)"
    using applyLoop_hit by blast
next
  assume "i \<le> MaxFiles E \<and> applyChecked E fo (slash p (c @ decimal i)) w = (Ret (False, fo1), w0)"
  then show "applyLoop E fo p c i extra w =
        (if extra - 1 \<le> 0 then (Ret fo1, w0) else applyLoop E fo1 p c (Suc i) (extra - 1) w0)"
    using applyLoop_miss by blast
next
  assume "MaxFiles E < i"
  then show "applyLoop E fo p c i extra w = (Throw DBException, w)" by (rule applyLoop_over)
next
  assume h: "applyLoop E fo p c 0 10 w = (Ret fo2, w1)"
  from applyLoop_misses [OF h] obtain t where
    t: "trace w1 = trace w @ t"
      "map fst (applied t) = map (\<lambda>k. slash p (c @ decimal k)) [0 ..< 0 + length (applied t)]"
      "int (length (filter (\<lambda>x. \<not> snd x) (applied t))) = 10"
      "\<not> snd (last (applied t))" "0 + length (applied t) \<le> Suc (MaxFiles E)" by auto
  from t(3) have "length (filter (\<lambda>x. \<not> snd x) (applied t)) = 10" by linarith
  with t show "\<exists>t. trace w1 = trace w @ t \<and>
           map fst (applied t) = map (\<lambda>k. slash p (c @ decimal k)) [0 ..< length (applied t)] \<and>
           length (filter (\<lambda>x. \<not> snd x) (applied t)) = 10 \<and>
           \<not> snd (last (applied t)) \<and>
           length (applied t) \<le> Suc (MaxFiles E)"
    by (intro exI [of _ t]) simp
qed

text \<open>A database whose extent files 1 and 3 exist and whose files 0 and 2 are missing.\<close>

definition state3 :: state where
  "state3 = \<lparr>fs = [(''/d/a.ns'', File 16), (''/d/a.1'', File 64), (''/d/a.3'', File 64)],
     inDBRepair = False, trace = [], repairFileDeleter = None\<rparr>"

lemma applyLoop_state3:
  "fst (applyLoop env1 (SizeAccumulator 0) ''/d'' ''a.'' 0 10 state3) = Ret (SizeAccumulator 128)"
  "map fst (applied (trace (snd (applyLoop env1 (SizeAccumulator 0) ''/d'' ''a.'' 0 10 state3)))) =
     [''/d/a.0'', ''/d/a.1'', ''/d/a.2'', ''/d/a.3'', ''/d/a.4'', ''/d/a.5'', ''/d/a.6'',
      ''/d/a.7'', ''/d/a.8'', ''/d/a.9'', ''/d/a.10'', ''/d/a.11'']"
  "Log ''  _applyOpToDataFiles() warning: extra == 8''
     \<in> set (trace (snd (applyLoop env1 (SizeAccumulator 0) ''/d'' ''a.'' 0 10 state3)))"
  by (simp_all add: run_defs env1_def state3_def applied_def)

lemma applyLoop_spec_state3:
  "map fst (applied (trace (snd (applyLoop_spec env1 (SizeAccumulator 0) ''/d'' ''a.'' 0 10 state3)))) =
     [''/d/a.0'', ''/d/a.1'', ''/d/a.2'', ''/d/a.3'', ''/d/a.4'', ''/d/a.5'', ''/d/a.6'',
      ''/d/a.7'', ''/d/a.8'', ''/d/a.9'', ''/d/a.10'', ''/d/a.11'', ''/d/a.12'', ''/d/a.13'']"
  by (simp add: applyLoop_spec.simps run_defs env1_def state3_def applied_def)

text \<open>Claim C2 as stated fails: after the handled file 1 the counter stays at 9, the next
  handled file 3 reports 8, and the enumeration stops at number 11, two numbers before the
  loop with the reset does.\<close>

theorem counter_not_reset_counterexample:
  "applyLoop env1 (SizeAccumulator 0) ''/d'' ''a.'' 0 10 state3
     \<noteq> applyLoop_spec env1 (SizeAccumulator 0) ''/d'' ''a.'' 0 10 state3
   \<and> Log ''  _applyOpToDataFiles() warning: extra == 8''
       \<in> set (trace (snd (applyLoop env1 (SizeAccumulator 0) ''/d'' ''a.'' 0 10 state3)))
   \<and> length (applied (trace (snd (applyLoop env1 (SizeAccumulator 0) ''/d'' ''a.'' 0 10 state3)))) = 12
   \<and> length (applied (trace (snd (applyLoop_spec env1 (SizeAccumulator 0) ''/d'' ''a.'' 0 10 state3)))) = 14"
proof -
  have a: "length (map fst (applied (trace (snd (applyLoop env1 (SizeAccumulator 0) ''/d'' ''a.'' 0 10 state3))))) = 12"
    by (simp only: applyLoop_state3(2)) simp
  have b: "length (map fst (applied (trace (snd (applyLoop_spec env1 (SizeAccumulator 0) ''/d'' ''a.'' 0 10 state3))))) = 14"
    by (simp only: applyLoop_spec_state3) simp
  from a b have "applyLoop env1 (SizeAccumulator 0) ''/d'' ''a.'' 0 10 state3
     \<noteq> applyLoop_spec env1 (SizeAccumulator 0) ''/d'' ''a.'' 0 10 state3" by auto
  with a b applyLoop_state3(3) show ?thesis by simp
qed

theorem applyLoop_stops_at_tenth_miss_witness:
  "fst (applyLoop env1 (SizeAccumulator 0) ''/d'' ''a.'' 0 10 state3) = Ret (SizeAccumulator 128)
   \<and> (\<exists>t. trace (snd (applyLoop env1 (SizeAccumulator 0) ''/d'' ''a.'' 0 10 state3)) = trace state3 @ t \<and>
         length (filter (\<lambda>x. \<not> snd x) (applied t)) = 10 \<and> length (applied t) = 12 \<and>
         \<not> snd (last (applied t)))"
proof -
  let ?run = "applyLoop env1 (SizeAccumulator 0) ''/d'' ''a.'' 0 10 state3"
  have r: "?run = (Ret (SizeAccumulator 128), snd ?run)"
    using applyLoop_state3(1) by (cases ?run) simp
  from applyLoop_stops_at_tenth_miss [of 0 env1 "SizeAccumulator 0" "''/d''" "''a.''" state3
      "SizeAccumulator 0" state3 10 "SizeAccumulator 128" "snd ?run"] r
  obtain t where t: "trace (snd ?run) = trace state3 @ t"
    "length (filter (\<lambda>x. \<not> snd x) (applied t)) = 10" "\<not> snd (last (applied t))" by blast
  have "trace state3 = []" by (simp add: state3_def)
  with t(1) have "t = trace (snd ?run)" by simp
  then have "length (map fst (applied t)) = 12" by (simp only: applyLoop_state3(2)) simp
  then have "length (applied t) = 12" by simp
  with t applyLoop_state3(1) show ?thesis by blast
qed

lemma fsCall_trace: "fsCall E og c sem w = (r, w1) \<Longrightarrow> trace w1 = trace w @ [Fs og c]"
  by (auto simp: fsCall_def emit_def split: option.splits prod.splits)

lemma fs_create_directory_Ret:
  assumes "assertOnException (fs_create_directory E og p) w = (Ret b, w1)"
  shows "lookup (fs w1) p = Some Dir \<and> trace w1 = trace w @ [Fs og (CreateDirectory p)]"
proof -
  from assertOnException_split [OF assms] have c: "fs_create_directory E og p w = (Ret b, w1)"
    by auto
  from fsCall_trace [OF c [unfolded fs_create_directory_def]]
  have t: "trace w1 = trace w @ [Fs og (CreateDirectory p)]" .
  from c have "lookup (fs w1) p = Some Dir"
    by (auto simp: fs_create_directory_def fsCall_def lookup_def emit_def map_add_def
        split: option.splits entry.splits if_splits)
  with t show ?thesis by simp
qed

lemma fs_remove_all_trace:
  "assertOnException (fs_remove_all E og p) w = (r, w1) \<Longrightarrow>
     trace w1 = trace w @ [Fs og (RemoveAll p)]"
  by (drule assertOnException_split) (auto dest: fsCall_trace simp: fs_remove_all_def)

definition fromDelete :: "event \<Rightarrow> bool" where
  "fromDelete e =
     (case e of
        Fs og c \<Rightarrow> og = FromDeleter
      | Ext og c \<Rightarrow> og = FromDeleter \<and> c = WaitUntilFinished
      | Applied og q b \<Rightarrow> og = FromDeleter
      | Log s \<Rightarrow> True
      | Success \<Rightarrow> False)"

lemma deleteDataFiles_perdb:
  assumes "directoryperdb E" and "deleteDataFiles E db w = (Ret u, w1)"
  shows "trace w1 = trace w @ [Ext From_deleteDataFiles WaitUntilFinished,
            Fs From_deleteDataFiles (RemoveAll (slash (dbpath E) db))]"
proof -
  from assms have "bnd (extCall E From_deleteDataFiles WaitUntilFinished)
          (\<lambda>_. assertOnException
                 (fs_remove_all E From_deleteDataFiles (slash (dbpath E) db))) w = (Ret u, w1)"
    by (simp add: deleteDataFiles_def)
  from bnd_RetD [OF this] obtain x w0 where
    a: "extCall E From_deleteDataFiles WaitUntilFinished w = (Ret x, w0)"
    and b: "assertOnException (fs_remove_all E From_deleteDataFiles (slash (dbpath E) db)) w0
        = (Ret u, w1)" by blast
  from extCall_trace [OF a] fs_remove_all_trace [OF b] show ?thesis by simp
qed

lemma deleteDataFiles_files:
  assumes "\<not> directoryperdb E" and "deleteDataFiles E db w = (r, w1)"
  shows "\<exists>t. trace w1 = trace w @ t \<and> list_all fromDelete t"
proof -
  have "emits fromDelete (bnd (applyOpToDataFiles E db Deleter True (dbpath E)) (\<lambda>_. ret ()))"
    by (intro emits_bnd emits_ret emits_applyOpToDataFiles) (simp_all add: fromDelete_def)
  with assms show ?thesis by (auto simp: deleteDataFiles_def dest: emitsD)
qed

text \<open>
  Claim C6, as amended.  With \<^verbatim>\<open>backupOriginalFiles\<close> false, once the original files
  are deleted (in directory-per-database mode by one recursive removal of
  \<^verbatim>\<open><dbpath>/<db>\<close>, after the allocator is idle), the directory \<^verbatim>\<open><dbpath>/<db>\<close> is
  created in both modes: the creation is the phase's last call and the directory exists
  when the phase completes.
\<close>

theorem dispose_creates_directory_in_both_modes:
  "repairDatabase_dispose E dbName reservedPath False w = (Ret u, w1) \<longrightarrow>
     lookup (fs w1) (slash (dbpath E) dbName) = Some Dir \<and>
     (\<exists>t. trace w1 = trace w @ t @ [Fs From_repairDatabase (CreateDirectory (slash (dbpath E) dbName))]
        \<and> (if directoryperdb E
           then t = [Ext From_deleteDataFiles WaitUntilFinished,
                     Fs From_deleteDataFiles (RemoveAll (slash (dbpath E) dbName))]
           else list_all fromDelete t))"
proof
  assume h: "repairDatabase_dispose E dbName reservedPath False w = (Ret u, w1)"
  then have "bnd (deleteDataFiles E dbName)
             (\<lambda>_. bnd (assertOnException
                         (fs_create_directory E From_repairDatabase (slash (dbpath E) dbName)))
                (\<lambda>_. ret ())) w = (Ret u, w1)"
    by (simp add: repairDatabase_dispose_def)
  from bnd_RetD [OF this] obtain x w0 where
    d: "deleteDataFiles E dbName w = (Ret x, w0)"
    and "bnd (assertOnException
                (fs_create_directory E From_repairDatabase (slash (dbpath E) dbName)))
           (\<lambda>_. ret ()) w0 = (Ret u, w1)" by blast
  from bnd_RetD [OF this(2)] obtain b where
    c: "assertOnException
          (fs_create_directory E From_repairDatabase (slash (dbpath E) dbName)) w0 = (Ret b, w1)"
    by (auto simp: ret_eq)
  note k = fs_create_directory_Ret [OF c]
  have "\<exists>t. trace w0 = trace w @ t \<and>
          (if directoryperdb E
           then t = [Ext From_deleteDataFiles WaitUntilFinished,
                     Fs From_deleteDataFiles (RemoveAll (slash (dbpath E) dbName))]
           else list_all fromDelete t)"
  proof (cases "directoryperdb E")
    case True
    with deleteDataFiles_perdb [OF True d] show ?thesis by simp
  next
    case False
    with deleteDataFiles_files [OF False d] show ?thesis by simp
  qed
  then obtain t where t: "trace w0 = trace w @ t"
    "if directoryperdb E
           then t = [Ext From_deleteDataFiles WaitUntilFinished,
                     Fs From_deleteDataFiles (RemoveAll (slash (dbpath E) dbName))]
           else list_all fromDelete t" by blast
  from k t(1) have "trace w1 = trace w @ t @ [Fs From_repairDatabase (CreateDirectory (slash (dbpath E) dbName))]"
    by simp
  with k t(2) show "lookup (fs w1) (slash (dbpath E) dbName) = Some Dir \<and>
     (\<exists>t. trace w1 = trace w @ t @ [Fs From_repairDatabase (CreateDirectory (slash (dbpath E) dbName))]
        \<and> (if directoryperdb E
           then t = [Ext From_deleteDataFiles WaitUntilFinished,
                     Fs From_deleteDataFiles (RemoveAll (slash (dbpath E) dbName))]
           else list_all fromDelete t))"
    by blast
qed

lemmas dispose_defs = repairDatabase_dispose_def deleteDataFiles_def fs_remove_def
  fs_remove_all_def fs_create_directory_def FileOp_apply.simps erase_def eraseTree_def
  isUnder_def hasChildren_def

lemma dispose_state1:
  "fst (repairDatabase_dispose env1 ''a'' ''/r/_tmp_repairDatabase_0'' False state1) = Ret ()"
  "lookup (fs (snd (repairDatabase_dispose env1 ''a'' ''/r/_tmp_repairDatabase_0'' False state1)))
     ''/d/a'' = Some Dir"
  "last (trace (snd (repairDatabase_dispose env1 ''a'' ''/r/_tmp_repairDatabase_0'' False state1)))
     = Fs From_repairDatabase (CreateDirectory ''/d/a'')"
  by (simp_all add: dispose_defs run_defs env1_def state1_def)

text \<open>Claim C6 as stated fails: directory-per-database mode is off, and the phase still
  creates the directory \<^verbatim>\<open>/d/a\<close>, which did not exist before.\<close>

theorem directory_created_without_directoryperdb_counterexample:
  "\<not> directoryperdb env1
   \<and> lookup (fs state1) ''/d/a'' = None
   \<and> fst (repairDatabase_dispose env1 ''a'' ''/r/_tmp_repairDatabase_0'' False state1) = Ret ()
   \<and> lookup (fs (snd (repairDatabase_dispose env1 ''a'' ''/r/_tmp_repairDatabase_0'' False state1)))
       ''/d/a'' = Some Dir
   \<and> last (trace (snd (repairDatabase_dispose env1 ''a'' ''/r/_tmp_repairDatabase_0'' False state1)))
       = Fs From_repairDatabase (CreateDirectory ''/d/a'')"
  using dispose_state1 by (simp add: env1_def state1_def lookup_def)

theorem dispose_creates_directory_in_both_modes_witness:
  "fst (repairDatabase_dispose env1 ''a'' ''/r/_tmp_repairDatabase_0'' False state1) = Ret ()
   \<and> lookup (fs (snd (repairDatabase_dispose env1 ''a'' ''/r/_tmp_repairDatabase_0'' False state1)))
       (slash (dbpath env1) ''a'') = Some Dir
   \<and> fst (repairDatabase_dispose (env1\<lparr>directoryperdb := True\<rparr>) ''a'' ''/r/_tmp_repairDatabase_0''
          False state1) = Ret ()
   \<and> trace (snd (repairDatabase_dispose (env1\<lparr>directoryperdb := True\<rparr>) ''a''
          ''/r/_tmp_repairDatabase_0'' False state1))
       = [Ext From_deleteDataFiles WaitUntilFinished, Fs From_deleteDataFiles (RemoveAll ''/d/a''),
          Fs From_repairDatabase (CreateDirectory ''/d/a'')]"
proof -
  let ?run = "repairDatabase_dispose env1 ''a'' ''/r/_tmp_repairDatabase_0'' False state1"
  have r: "?run = (Ret (), snd ?run)" using dispose_state1(1) by (cases ?run) simp
  from dispose_creates_directory_in_both_modes [of env1 "''a''" "''/r/_tmp_repairDatabase_0''"
      state1 "()" "snd ?run"] r
  have a: "lookup (fs (snd ?run)) (slash (dbpath env1) ''a'') = Some Dir" by blast
  have b: "fst (repairDatabase_dispose (env1\<lparr>directoryperdb := True\<rparr>) ''a''
          ''/r/_tmp_repairDatabase_0'' False state1) = Ret ()"
    "trace (snd (repairDatabase_dispose (env1\<lparr>directoryperdb := True\<rparr>) ''a''
          ''/r/_tmp_repairDatabase_0'' False state1))
       = [Ext From_deleteDataFiles WaitUntilFinished, Fs From_deleteDataFiles (RemoveAll ''/d/a''),
          Fs From_repairDatabase (CreateDirectory ''/d/a'')]"
    by (simp_all add: dispose_defs run_defs env1_def state1_def)
  from a b dispose_state1(1) show ?thesis by blast
qed

text \<open>A piece of the source is tame for an observation of the state when running it
  leaves the observation as it was and never makes \<^verbatim>\<open>repairDatabase\<close> return an OK
  status early.\<close>

definition tame :: "(state \<Rightarrow> 'b) \<Rightarrow> 'a prog \<Rightarrow> bool" where
  "tame f m = (\<forall>w r w1. m w = (r, w1) \<longrightarrow> f w1 = f w \<and> (\<forall>s. r = Return s \<longrightarrow> \<not> isOK s))"

definition ignoresTrace :: "(state \<Rightarrow> 'b) \<Rightarrow> bool" where
  "ignoresTrace f = (\<forall>w t. f (w\<lparr>trace := t\<rparr>) = f w)"

definition ignoresFs :: "(state \<Rightarrow> 'b) \<Rightarrow> bool" where
  "ignoresFs f = (\<forall>w x. f (w\<lparr>fs := x\<rparr>) = f w)"

definition locals :: "state \<Rightarrow> bool \<times> RepairFileDeleter option" where
  "locals w = (inDBRepair w, repairFileDeleter w)"

lemma ignores_locals: "ignoresTrace locals" "ignoresFs locals"
  by (simp_all add: ignoresTrace_def ignoresFs_def locals_def)

lemma ignoresTrace_fs: "ignoresTrace fs"
  by (simp add: ignoresTrace_def)

lemma tameD: "tame f m \<Longrightarrow> m w = (r, w1) \<Longrightarrow> f w1 = f w \<and> (\<forall>s. r = Return s \<longrightarrow> \<not> isOK s)"
  unfolding tame_def by blast

lemma tameI:
  "(\<And>w r w1. m w = (r, w1) \<Longrightarrow> f w1 = f w \<and> (\<forall>s. r = Return s \<longrightarrow> \<not> isOK s)) \<Longrightarrow> tame f m"
  unfolding tame_def by blast

lemma tame_ret: "tame f (ret x)"
  by (rule tameI) (simp add: ret_def)

lemma tame_bnd_Ret:
  assumes m: "tame f m" and k: "\<And>x w w0. m w = (Ret x, w0) \<Longrightarrow> tame f (k x)"
  shows "tame f (bnd m k)"
proof (rule tameI)
  fix w r w1
  assume h: "bnd m k w = (r, w1)"
  from bnd_split [OF h]
  consider x w0 where "m w = (Ret x, w0)" "k x w0 = (r, w1)"
    | s where "m w = (Return s, w1)" "r = Return s"
    | e where "m w = (Throw e, w1)" "r = Throw e"
    | x where "m w = (Fatal x, w1)" "r = Fatal x"
    by blast
  then show "f w1 = f w \<and> (\<forall>s. r = Return s \<longrightarrow> \<not> isOK s)"
  proof cases
    case 1
    from tameD [OF m 1(1)] tameD [OF k [OF 1(1)] 1(2)] show ?thesis by simp
  next
    case 2 with tameD [OF m 2(1)] show ?thesis by simp
  next
    case 3 with tameD [OF m 3(1)] show ?thesis by simp
  next
    case 4 with tameD [OF m 4(1)] show ?thesis by simp
  qed
qed

lemma tame_bnd: "tame f m \<Longrightarrow> (\<And>x. tame f (k x)) \<Longrightarrow> tame f (bnd m k)"
  by (rule tame_bnd_Ret)

lemma tame_extCall: "ignoresTrace f \<Longrightarrow> ignoresFs f \<Longrightarrow> tame f (extCall E og c)"
  by (rule tameI) (auto simp: extCall_def emit_def ignoresTrace_def ignoresFs_def split: option.splits)

lemma tame_fsCall:
  "ignoresTrace f \<Longrightarrow> ignoresFs f \<Longrightarrow> (\<And>x s. fst (sem x) \<noteq> Return s) \<Longrightarrow>
     tame f (fsCall E og c sem)"
proof (rule tameI)
  fix w r w1
  assume i: "ignoresTrace f" "ignoresFs f" and n: "\<And>x s. fst (sem x) \<noteq> Return s"
    and h: "fsCall E og c sem w = (r, w1)"
  obtain r0 x0 where s: "sem (fs w) = (r0, x0)" by (cases "sem (fs w)")
  from n [of "fs w"] s have "\<And>s. r0 \<noteq> Return s" by simp
  with h s i show "f w1 = f w \<and> (\<forall>s. r = Return s \<longrightarrow> \<not> isOK s)"
    by (auto simp: fsCall_def emit_def ignoresTrace_def ignoresFs_def split: option.splits)
qed

lemma tame_fsCall_readonly:
  "ignoresTrace f \<Longrightarrow> (\<And>x. snd (sem x) = x) \<Longrightarrow> (\<And>x s. fst (sem x) \<noteq> Return s) \<Longrightarrow>
     tame f (fsCall E og c sem)"
proof (rule tameI)
  fix w r w1
  assume i: "ignoresTrace f" and ro: "\<And>x. snd (sem x) = x"
    and n: "\<And>x s. fst (sem x) \<noteq> Return s"
    and h: "fsCall E og c sem w = (r, w1)"
  obtain r0 x0 where s: "sem (fs w) = (r0, x0)" by (cases "sem (fs w)")
  from n [of "fs w"] ro [of "fs w"] s have "\<And>s. r0 \<noteq> Return s" "x0 = fs w" by simp_all
  moreover have "w\<lparr>trace := t, fs := fs w\<rparr> = w\<lparr>trace := t\<rparr>" for t by simp
  ultimately show "f w1 = f w \<and> (\<forall>s. r = Return s \<longrightarrow> \<not> isOK s)"
    using h s i by (auto simp: fsCall_def emit_def ignoresTrace_def split: option.splits)
qed

lemma tame_assertOnException: "tame f m \<Longrightarrow> tame f (assertOnException m)"
proof (rule tameI)
  fix w r w1
  assume m: "tame f m" and h: "assertOnException m w = (r, w1)"
  from assertOnException_split [OF h]
  show "f w1 = f w \<and> (\<forall>s. r = Return s \<longrightarrow> \<not> isOK s)"
    using tameD [OF m] by auto
qed

lemma tame_logLine: "ignoresTrace f \<Longrightarrow> tame f (logLine s)"
  by (rule tameI) (auto simp: logLine_def emit_def ignoresTrace_def)

lemma tame_invariant: "tame f (invariant b)"
  by (rule tameI) (auto simp: invariant_def split: if_splits)



lemma tame_fs_exists: "ignoresTrace f \<Longrightarrow> tame f (fs_exists E og p)"
  unfolding fs_exists_def by (rule tame_fsCall_readonly) simp_all

lemma tame_fs_file_size: "ignoresTrace f \<Longrightarrow> tame f (fs_file_size E og p)"
  unfolding fs_file_size_def
  by (rule tame_fsCall_readonly) (simp_all split: option.splits entry.splits)

lemma tame_fs_remove: "ignoresTrace f \<Longrightarrow> ignoresFs f \<Longrightarrow> tame f (fs_remove E og p)"
  unfolding fs_remove_def
  by (rule tame_fsCall) (simp_all split: option.splits entry.splits)

lemma tame_fs_remove_all: "ignoresTrace f \<Longrightarrow> ignoresFs f \<Longrightarrow> tame f (fs_remove_all E og p)"
  unfolding fs_remove_all_def by (rule tame_fsCall) simp_all

lemma tame_fs_rename: "ignoresTrace f \<Longrightarrow> ignoresFs f \<Longrightarrow> tame f (fs_rename E og a b)"
  unfolding fs_rename_def
  by (rule tame_fsCall) (simp_all split: option.splits)

lemma tame_fs_copy_file: "ignoresTrace f \<Longrightarrow> ignoresFs f \<Longrightarrow> tame f (fs_copy_file E og a b)"
  unfolding fs_copy_file_def
  by (rule tame_fsCall) (simp_all split: option.splits entry.splits)


lemma tame_boostRenameWrapper:
  assumes "ignoresTrace f" "ignoresFs f"
  shows "tame f (boostRenameWrapper E og a b)"
proof (rule tameI)
  fix w r w1
  assume h: "boostRenameWrapper E og a b w = (r, w1)"
  have r: "tame f (fs_rename E og a b)" by (rule tame_fs_rename) (rule assms)+
  have k: "tame f (bnd (fs_copy_file E og a b) (\<lambda>_. bnd (fs_remove E og a) (\<lambda>_. ret ())))"
    by (intro tame_bnd tame_ret tame_fs_copy_file tame_fs_remove assms)
  from boostRenameWrapper_split [OF h]
  show "f w1 = f w \<and> (\<forall>s. r = Return s \<longrightarrow> \<not> isOK s)"
  proof
    assume "\<exists>w0. fs_rename E og a b w = (Throw filesystem_error, w0) \<and>
        bnd (fs_copy_file E og a b) (\<lambda>_. bnd (fs_remove E og a) (\<lambda>_. ret ())) w0 = (r, w1)"
    then obtain w0 where a: "fs_rename E og a b w = (Throw filesystem_error, w0)"
      and b: "bnd (fs_copy_file E og a b) (\<lambda>_. bnd (fs_remove E og a) (\<lambda>_. ret ())) w0 = (r, w1)"
      by blast
    from tameD [OF r a] tameD [OF k b] show ?thesis by simp
  next
    assume "fs_rename E og a b w = (r, w1) \<and> r \<noteq> Throw filesystem_error"
    then have "fs_rename E og a b w = (r, w1)" by simp
    from tameD [OF r this] show ?thesis .
  qed
qed

lemma tame_FileOp_apply:
  assumes "ignoresTrace f" "ignoresFs f"
  shows "tame f (FileOp_apply E fo q)"
proof (cases fo)
  case Deleter
  with assms show ?thesis by (auto intro!: tame_bnd tame_ret tame_fs_remove)
next
  case (Renamer np)
  with assms show ?thesis
    by (auto intro!: tame_bnd tame_ret tame_fs_exists tame_boostRenameWrapper)
next
  case (SizeAccumulator t)
  with assms show ?thesis
    by (auto intro!: tame_bnd tame_ret tame_fs_exists tame_fs_file_size)
next
  case (Replacer np)
  with assms show ?thesis
    by (auto intro!: tame_bnd tame_ret tame_fs_exists tame_boostRenameWrapper)
qed

lemma tame_SizeAccumulator_apply:
  "ignoresTrace f \<Longrightarrow> tame f (FileOp_apply E (SizeAccumulator t) q)"
  by (auto intro!: tame_bnd tame_ret tame_fs_exists tame_fs_file_size)

lemma tame_applyChecked:
  assumes "ignoresTrace f" and "tame f (FileOp_apply E fo q)"
  shows "tame f (applyChecked E fo q)"
  unfolding applyChecked_def
proof (rule tame_bnd)
  show "tame f (assertOnException (FileOp_apply E fo q))"
    by (intro tame_assertOnException assms)
next
  fix x :: "bool \<times> FileOp"
  show "tame f (\<lambda>w. (Ret x, emit (Applied (originOf fo) q (fst x)) w))"
    using assms(1) by (intro tameI) (auto simp: emit_def ignoresTrace_def)
qed

lemma applyLoop_tame:
  assumes i: "ignoresTrace f"
    and a: "\<And>fo q. originOf fo = og \<Longrightarrow> tame f (FileOp_apply E fo q)"
  shows "applyLoop E fo p c i extra w = (r, w1) \<Longrightarrow> originOf fo = og \<Longrightarrow>
           f w1 = f w \<and> (\<forall>s. r = Return s \<longrightarrow> \<not> isOK s)"
proof (induction n \<equiv> "Suc (MaxFiles E) - i" arbitrary: i fo extra w)
  case 0
  from "0.prems"(1) show ?case
  proof (cases rule: applyLoop_cases)
    case over then show ?thesis by simp
  qed (use 0 in simp_all)
next
  case (Suc n)
  have ac: "tame f (applyChecked E fo q)" for q
    using Suc.prems(2) by (intro tame_applyChecked i a)
  have n: "n = Suc (MaxFiles E) - Suc i" using Suc.hyps(2) by simp
  from Suc.prems(1) show ?case
  proof (cases rule: applyLoop_cases)
    case over then show ?thesis by simp
  next
    case (hit fo1 w0)
    let ?w = "if extra \<noteq> 10
          then emit (Log (''  _applyOpToDataFiles() warning: extra == '' @ decimalInt extra))
                 (emit (Log (op fo1 @ '' file '' @ slash p (c @ decimal i))) w0)
          else w0"
    have og: "originOf fo1 = og" using applyChecked_origin [OF hit(2)] Suc.prems(2) by simp
    have "f ?w = f w0" using i by (simp add: emit_def ignoresTrace_def)
    with Suc.hyps(1) [OF n hit(3) og] tameD [OF ac hit(2)] show ?thesis by simp
  next
    case (last fo1)
    from tameD [OF ac last(2)] last(4) show ?thesis by simp
  next
    case (miss fo1 w0)
    have og: "originOf fo1 = og" using applyChecked_origin [OF miss(2)] Suc.prems(2) by simp
    from Suc.hyps(1) [OF n miss(4) og] tameD [OF ac miss(2)] show ?thesis by simp
  next
    case (fail r0)
    from tameD [OF ac fail(2)] have f: "f w1 = f w" by simp
    from Suc.prems(1) fail(1,2,3) have "r = (case r0 of Return s \<Rightarrow> Return s | Throw e \<Rightarrow> Throw e | Fatal x \<Rightarrow> Fatal x)"
      by (subst (asm) applyLoop.simps) (cases r0; simp)
    with tameD [OF ac fail(2)] f fail(3) show ?thesis by (cases r0) auto
  qed
qed

lemma tame_applyOpToDataFiles:
  assumes i: "ignoresTrace f"
    and a: "\<And>fo1 q. originOf fo1 = originOf fo \<Longrightarrow> tame f (FileOp_apply E fo1 q)"
    and x: "afterAllocator \<Longrightarrow> ignoresFs f"
  shows "tame f (applyOpToDataFiles E database fo afterAllocator pth)"
  unfolding applyOpToDataFiles_def
proof (rule tame_bnd)
  show "tame f (if afterAllocator then extCall E (originOf fo) WaitUntilFinished else ret ())"
    using i x by (auto intro: tame_extCall tame_ret)
next
  fix u :: unit
  let ?q = "slash (if directoryperdb E then slash pth database else pth) ((database @ ''.'') @ ''ns'')"
  show "tame f (bnd (applyChecked E fo ?q)
         (\<lambda>r. bnd (if fst r then logLine (op (snd r) @ '' file '' @ ?q) else ret ())
           (\<lambda>_. applyLoop E (snd r) (if directoryperdb E then slash pth database else pth)
                   (database @ ''.'') 0 10)))"
  proof (rule tame_bnd_Ret)
    show "tame f (applyChecked E fo ?q)" by (intro tame_applyChecked i a) simp
  next
    fix x w w0
    assume h: "applyChecked E fo ?q w = (Ret x, w0)"
    obtain ok fo1 where x: "x = (ok, fo1)" by (cases x)
    have og: "originOf fo1 = originOf fo" using applyChecked_origin [of E fo ?q w ok fo1 w0] h x by simp
    have "tame f (applyLoop E fo1 pp cc 0 10)" for pp cc
      by (rule tameI) (rule applyLoop_tame [where og = "originOf fo" and f = f], (rule i a og | assumption)+)
    then show "tame f (bnd (if fst x then logLine (op (snd x) @ '' file '' @ ?q) else ret ())
           (\<lambda>_. applyLoop E (snd x) (if directoryperdb E then slash pth database else pth)
                   (database @ ''.'') 0 10))"
      using x i by (intro tame_bnd) (auto intro: tame_logLine tame_ret)
  qed
qed

lemma emits_mono: "emits P m \<Longrightarrow> (\<And>e. P e \<Longrightarrow> Q e) \<Longrightarrow> emits Q m"
  unfolding emits_def by (meson list.pred_mono_strong)

lemma emits_bnd_Ret:
  assumes m: "emits P m" and f: "\<And>x w w0. m w = (Ret x, w0) \<Longrightarrow> emits P (f x)"
  shows "emits P (bnd m f)"
proof (rule emitsI)
  fix w r w1
  assume h: "bnd m f w = (r, w1)"
  from bnd_split [OF h]
  consider x w0 where "m w = (Ret x, w0)" "f x w0 = (r, w1)"
    | r0 where "m w = (r0, w1)"
    by blast
  then show "\<exists>tr. trace w1 = trace w @ tr \<and> list_all P tr"
  proof cases
    case 1
    from emitsD [OF m 1(1)] obtain t1 where t1: "trace w0 = trace w @ t1" "list_all P t1" by blast
    from emitsD [OF f [OF 1(1)] 1(2)] obtain t2 where t2: "trace w1 = trace w0 @ t2" "list_all P t2" by blast
    from t1 t2 have "trace w1 = trace w @ (t1 @ t2)" "list_all P (t1 @ t2)" by simp_all
    then show ?thesis by blast
  next
    case 2
    from emitsD [OF m 2] show ?thesis .
  qed
qed

text \<open>The namespaces the catalog scan lets through.\<close>

definition copied :: "env \<Rightarrow> string \<Rightarrow> bool" where
  "copied E ns = (isNormal E ns \<and> coll ns \<noteq> ''system.indexes'' \<and> coll ns \<noteq> ''system.namespaces'')"

definition optionsOf :: "BSONObj \<Rightarrow> BSONObj option" where
  "optionsOf obj =
     (case getField obj ''options'' of Object ob \<Rightarrow> Some ob | Array ob \<Rightarrow> Some ob | _ \<Rightarrow> None)"

lemma scanNamespaces_step:
  assumes "scanNamespaces E (Some obj # rest) m w = (r, w1)"
  shows "(scanNamespaces E rest m w = (r, w1))
     \<or> (\<exists>ns. getField obj ''name'' = String ns \<and> copied E ns \<and>
          (\<forall>ob. optionsOf obj = Some ob \<longrightarrow> isOK (parse E ob)) \<and>
          scanNamespaces E rest (mapAssign ns (CollectionOptions (optionsOf obj)) m) w = (r, w1))
     \<or> (\<exists>ns ob. getField obj ''name'' = String ns \<and> copied E ns \<and> optionsOf obj = Some ob \<and>
          \<not> isOK (parse E ob) \<and> r = Return (parse E ob) \<and> w1 = w)
     \<or> ((\<forall>ns. getField obj ''name'' \<noteq> String ns) \<and> r = Throw DBException \<and> w1 = w)"
proof (cases "getField obj ''name''")
  case (String ns)
  show ?thesis
  proof (cases "isSystem ns \<and> (isSystemDotIndexes ns \<or> coll ns = ''system.namespaces'')")
    case True
    with assms String show ?thesis by simp
  next
    case sk: False
    show ?thesis
    proof (cases "isNormal E ns")
      case False
      with assms String sk show ?thesis by simp
    next
      case True
      have cp: "copied E ns"
        using sk True by (auto simp: copied_def isSystem_def isSystemDotIndexes_def)
      show ?thesis
      proof (cases "optionsOf obj")
        case None
        then have "\<forall>ob. getField obj ''options'' \<noteq> Object ob \<and> getField obj ''options'' \<noteq> Array ob"
          by (auto simp: optionsOf_def split: BSONElement.splits)
        with assms String sk True
        have "scanNamespaces E rest (mapAssign ns (CollectionOptions None) m) w = (r, w1)"
          by (cases "getField obj ''options''") auto
        with String cp None show ?thesis by auto
      next
        case (Some ob)
        then have "getField obj ''options'' = Object ob \<or> getField obj ''options'' = Array ob"
          by (auto simp: optionsOf_def split: BSONElement.splits)
        with assms String sk True
        have b: "bnd (returnUnlessOK (parse E ob))
                   (\<lambda>_. scanNamespaces E rest
                          (mapAssign ns (CollectionOptions (Some ob)) m)) w = (r, w1)"
          by auto
        show ?thesis
        proof (cases "isOK (parse E ob)")
          case True
          with b have "scanNamespaces E rest (mapAssign ns (CollectionOptions (Some ob)) m) w = (r, w1)"
            by (simp add: bnd_def returnUnlessOK_def)
          with String cp Some True show ?thesis by auto
        next
          case False
          with b have "r = Return (parse E ob) \<and> w1 = w"
            by (auto simp add: bnd_def returnUnlessOK_def)
          with String cp Some False show ?thesis by auto
        qed
      qed
    qed
  qed
qed (use assms in auto)

lemma mapAssign_keys: "fst ` set (mapAssign k v m) = insert k (fst ` set m)"
  by (induction k v m rule: mapAssign.induct) auto

lemma Return_in_tail:
  assumes "\<forall>s. r = Return s \<longrightarrow> \<not> isOK s \<and>
        (\<exists>obj ob. Some obj \<in> set ds \<and> optionsOf obj = Some ob \<and> s = parse E ob)"
  shows "\<forall>s. r = Return s \<longrightarrow> \<not> isOK s \<and>
        (\<exists>obj ob. Some obj \<in> set (d # ds) \<and> optionsOf obj = Some ob \<and> s = parse E ob)"
proof (intro allI impI)
  fix s assume "r = Return s"
  with assms obtain obj ob where "\<not> isOK s" "Some obj \<in> set ds" "optionsOf obj = Some ob"
    "s = parse E ob" by blast
  then have "\<not> isOK s" "Some obj \<in> set (d # ds)" "optionsOf obj = Some ob" "s = parse E ob"
    by simp_all
  then show "\<not> isOK s \<and>
        (\<exists>obj ob. Some obj \<in> set (d # ds) \<and> optionsOf obj = Some ob \<and> s = parse E ob)"
    by blast
qed

lemma scanNamespaces_result:
  "scanNamespaces E ds m w = (r, w1) \<Longrightarrow>
     w1 = w \<and>
     (\<forall>m1. r = Ret m1 \<longrightarrow> (\<forall>ns \<in> fst ` set m1. ns \<in> fst ` set m \<or> copied E ns)) \<and>
     (\<forall>s. r = Return s \<longrightarrow> \<not> isOK s \<and>
        (\<exists>obj ob. Some obj \<in> set ds \<and> optionsOf obj = Some ob \<and> s = parse E ob))"
proof (induction ds arbitrary: m)
  case Nil
  then show ?case by (auto simp: ret_def)
next
  case (Cons d ds)
  show ?case
  proof (cases d)
    case None
    with Cons.prems show ?thesis by auto
  next
    case (Some obj)
    from Cons.prems Some have h: "scanNamespaces E (Some obj # ds) m w = (r, w1)" by simp
    from scanNamespaces_step [OF h] show ?thesis
    proof (elim disjE exE conjE)
      assume "scanNamespaces E ds m w = (r, w1)"
      from Cons.IH [OF this] have a: "w1 = w"
        and b: "\<forall>m1. r = Ret m1 \<longrightarrow> (\<forall>ns \<in> fst ` set m1. ns \<in> fst ` set m \<or> copied E ns)"
        and k: "\<forall>s. r = Return s \<longrightarrow> \<not> isOK s \<and>
        (\<exists>obj ob. Some obj \<in> set ds \<and> optionsOf obj = Some ob \<and> s = parse E ob)"
        by simp_all
      from a b Return_in_tail [OF k, of d] show ?thesis by (intro conjI)
    next
      fix ns
      assume c: "copied E ns"
        and s: "scanNamespaces E ds (mapAssign ns (CollectionOptions (optionsOf obj)) m) w = (r, w1)"
      from Cons.IH [OF s] have a: "w1 = w"
        and b: "\<forall>m1. r = Ret m1 \<longrightarrow> (\<forall>ns' \<in> fst ` set m1.
                 ns' \<in> fst ` set (mapAssign ns (CollectionOptions (optionsOf obj)) m) \<or> copied E ns')"
        and k: "\<forall>s. r = Return s \<longrightarrow> \<not> isOK s \<and>
        (\<exists>obj ob. Some obj \<in> set ds \<and> optionsOf obj = Some ob \<and> s = parse E ob)"
        by simp_all
      have "\<forall>m1. r = Ret m1 \<longrightarrow> (\<forall>ns' \<in> fst ` set m1. ns' \<in> fst ` set m \<or> copied E ns')"
      proof (intro allI impI ballI)
        fix m1 ns' assume "r = Ret m1" "ns' \<in> fst ` set m1"
        with b have "ns' \<in> insert ns (fst ` set m) \<or> copied E ns'"
          unfolding mapAssign_keys by blast
        with c show "ns' \<in> fst ` set m \<or> copied E ns'" by auto
      qed
      with a Return_in_tail [OF k, of d] show ?thesis by (intro conjI)
    next
      fix ns ob
      assume "optionsOf obj = Some ob" "\<not> isOK (parse E ob)" "r = Return (parse E ob)" "w1 = w"
      moreover have "Some obj \<in> set (d # ds)" using Some by simp
      ultimately show ?thesis by (intro conjI allI impI) auto
    next
      assume "r = Throw DBException" "w1 = w"
      then show ?thesis by simp
    qed
  qed
qed

fun eventOrigin :: "event \<Rightarrow> origin option" where
  "eventOrigin (Fs og c) = Some og"
| "eventOrigin (Ext og c) = Some og"
| "eventOrigin (Applied og q b) = Some og"
| "eventOrigin (Log s) = None"
| "eventOrigin Success = None"

definition isLog :: "event \<Rightarrow> bool" where
  "isLog e = (\<exists>s. e = Log s)"

text \<open>What a file operation of the given class, run by the enumerator, may call.\<close>

definition fileOpEvent :: "origin \<Rightarrow> event \<Rightarrow> bool" where
  "fileOpEvent og e =
     ((\<exists>c. e = Fs og c) \<or> (\<exists>q b. e = Applied og q b) \<or> e = Ext og WaitUntilFinished)"

text \<open>The calls that dispose of the original files, and those that install the rebuilt
  ones.\<close>

definition isDisposal :: "event \<Rightarrow> bool" where
  "isDisposal e =
     (fileOpEvent FromDeleter e \<or> fileOpEvent FromRenamer e \<or>
      fileOpEvent From_deleteDataFiles e)"

definition isInstall :: "event \<Rightarrow> bool" where
  "isInstall e = fileOpEvent FromReplacer e"

text \<open>What each part of \<^verbatim>\<open>repairDatabase\<close> may call.\<close>

definition evMeasure :: "string \<Rightarrow> event \<Rightarrow> bool" where
  "evMeasure db e =
     (isLog e \<or> e = Ext From_repairDatabase (AssertNoBgOpInProgForDb db) \<or>
      e = Ext From_repairDatabase SyncDataAndTruncateJournal \<or>
      fileOpEvent FromSizeAccumulator e)"

definition evCheck :: "env \<Rightarrow> string \<Rightarrow> event \<Rightarrow> bool" where
  "evCheck E db e = (evMeasure db e \<or> e = Ext From_repairDatabase (FreeSpace (repairpath E)))"

definition evReserve :: "event \<Rightarrow> bool" where
  "evReserve e =
     (e = Ext From_repairDatabase (CheckForInterrupt True) \<or>
      (\<exists>p. e = Fs From_uniqueReservedPath (Exists p)) \<or>
      (\<exists>p. e = Fs From_repairDatabase (CreateDirectory p)))"

definition evClone :: "env \<Rightarrow> event \<Rightarrow> bool" where
  "evClone E e =
     (\<exists>c. e = Ext From_repairDatabase c \<and> (\<forall>ns ops. c = CreateCollection ns ops \<longrightarrow> copied E ns))"

definition evDispose :: "env \<Rightarrow> string \<Rightarrow> event \<Rightarrow> bool" where
  "evDispose E db e =
     (isDisposal e \<or> isLog e \<or> e = Fs From_repairDatabase (CreateDirectory (slash (dbpath E) db)))"

definition evInstall :: "path \<Rightarrow> event \<Rightarrow> bool" where
  "evInstall rp e =
     (e = Success \<or> isInstall e \<or> isLog e \<or> e = Fs From_repairDatabase (RemoveAll rp))"

definition evGuard :: "event \<Rightarrow> bool" where
  "evGuard e =
     (isLog e \<or> (\<exists>p. e = Fs From_RepairFileDeleter (RemoveAll p)) \<or>
      e = Ext From_RepairFileDeleter SyncDataAndTruncateJournal \<or>
      e = Ext From_RepairFileDeleter (FlushAll True) \<or>
      (\<exists>a b. e = Ext From_RepairFileDeleter (ContextPath a b)) \<or>
      (\<exists>a b. e = Ext From_RepairFileDeleter (CloseDatabase a b)))"

lemma tame_applyOp_locals:
  "tame locals (applyOpToDataFiles E db fo afterAllocator pth)"
  by (intro tame_applyOpToDataFiles tame_FileOp_apply ignores_locals)

lemma tame_dbSize_fs: "tame fs (dbSize E db)"
proof -
  have "tame fs (FileOp_apply E fo1 q)" if "originOf fo1 = originOf (SizeAccumulator 0)" for fo1 q
    using that by (cases fo1) (simp_all add: tame_SizeAccumulator_apply ignoresTrace_fs del: FileOp_apply.simps)
  then show ?thesis
    unfolding dbSize_def
    by (intro tame_bnd tame_ret tame_applyOpToDataFiles ignoresTrace_fs) simp_all
qed

lemma tame_dbSize: "tame locals (dbSize E db)"
  unfolding dbSize_def by (intro tame_bnd tame_ret tame_applyOp_locals)

lemma emits_dbSize: "emits (evMeasure db0) (dbSize E db)"
  unfolding dbSize_def
  by (intro emits_bnd emits_ret emits_applyOpToDataFiles)
    (simp_all add: evMeasure_def fileOpEvent_def isLog_def)

lemma tame_measure: "tame locals (repairDatabase_measure E db)"
  unfolding repairDatabase_measure_def
  by (intro tame_bnd tame_logLine tame_invariant tame_extCall tame_dbSize ignores_locals)

lemma emits_measure: "emits (evMeasure db) (repairDatabase_measure E db)"
  unfolding repairDatabase_measure_def
  by (intro emits_bnd emits_logLine emits_invariant emits_extCall emits_dbSize)
    (simp_all add: evMeasure_def fileOpEvent_def isLog_def)


lemma emits_check: "emits (evCheck E db) (repairDatabase_check E db)"
  unfolding repairDatabase_check_def
  by (intro emits_bnd emits_mono [OF emits_measure] emits_extCall)
    (auto simp: evCheck_def intro: emits_ret emits_returnStatus)

lemma uniqueReservedPath_loop_run:
  "uniqueReservedPath_loop E prefix i w = (r, w1) \<Longrightarrow>
     fs w1 = fs w \<and> locals w1 = locals w \<and> (\<forall>s. r = Return s \<longrightarrow> \<not> isOK s) \<and>
     (\<exists>tr. trace w1 = trace w @ tr \<and> list_all evReserve tr)"
proof (induction E prefix i w rule: uniqueReservedPath_loop.induct)
  case (1 E prefix i w)
  let ?m = "assertOnException (fs_exists E From_uniqueReservedPath (reservedName E prefix i))"
  obtain r0 w0 where a: "?m w = (r0, w0)" by (cases "?m w")
  have t: "tame f ?m" if "ignoresTrace f" for f :: "state \<Rightarrow> 'x"
    using that by (intro tame_assertOnException tame_fs_exists)
  have e: "emits evReserve ?m"
    by (intro emits_assertOnException emits_fs_exists) (simp add: evReserve_def)
  from tameD [OF t a] ignoresTrace_fs ignores_locals(1)
  have k: "fs w0 = fs w" "locals w0 = locals w" "\<forall>s. r0 = Return s \<longrightarrow> \<not> isOK s" by auto
  from emitsD [OF e a] obtain t0 where t0: "trace w0 = trace w @ t0" "list_all evReserve t0"
    by blast
  show ?case
  proof (cases r0)
    case (Ret ex)
    show ?thesis
    proof (cases ex)
      case True
      with "1.prems" a Ret have l: "uniqueReservedPath_loop E prefix (Suc i) w0 = (r, w1)"
        by (subst (asm) uniqueReservedPath_loop.simps) simp
      from "1.IH" [OF a [symmetric] Ret True l] obtain t1 where
        "fs w1 = fs w0" "locals w1 = locals w0" "\<forall>s. r = Return s \<longrightarrow> \<not> isOK s"
        "trace w1 = trace w0 @ t1" "list_all evReserve t1" by blast
      with k t0 have "fs w1 = fs w" "locals w1 = locals w" "\<forall>s. r = Return s \<longrightarrow> \<not> isOK s"
        "trace w1 = trace w @ (t0 @ t1)" "list_all evReserve (t0 @ t1)" by simp_all
      then show ?thesis by blast
    next
      case False
      with "1.prems" a Ret have "r = Ret (reservedName E prefix i)" "w1 = w0"
        by (subst (asm) uniqueReservedPath_loop.simps, simp)+
      with k t0 show ?thesis by auto
    qed
  next
    case (Return s)
    with "1.prems" a have "r = Return s" "w1 = w0"
      by (subst (asm) uniqueReservedPath_loop.simps, simp)+
    with k t0 Return show ?thesis by auto
  next
    case (Throw x)
    with "1.prems" a have "r = Throw x" "w1 = w0"
      by (subst (asm) uniqueReservedPath_loop.simps, simp)+
    with k t0 show ?thesis by auto
  next
    case (Fatal x)
    with "1.prems" a have "r = Fatal x" "w1 = w0"
      by (subst (asm) uniqueReservedPath_loop.simps, simp)+
    with k t0 show ?thesis by auto
  qed
qed

lemma emits_uniqueReservedPath: "emits evReserve (uniqueReservedPath E prefix)"
  unfolding uniqueReservedPath_def by (rule emitsI) (drule uniqueReservedPath_loop_run, simp)


lemma tame_uniqueReservedPath_fs: "tame fs (uniqueReservedPath E prefix)"
  unfolding uniqueReservedPath_def by (rule tameI) (drule uniqueReservedPath_loop_run, simp)

lemma ignores_inDBRepair: "ignoresTrace inDBRepair" "ignoresFs inDBRepair"
  by (simp_all add: ignoresTrace_def ignoresFs_def)


lemma emits_scanNamespaces: "emits P (scanNamespaces E ds m)"
  by (rule emitsI) (drule scanNamespaces_result, simp)


lemma emits_copyDocs: "emits (evClone E) (copyDocs E ns ds)"
proof (induction E ns ds rule: copyDocs.induct)
  case (1 E ns)
  show ?case by (simp add: emits_ret)
next
  case (2 E ns rest)
  show ?case by (simp add: emits_invariant)
next
  case (3 E ns doc rest)
  show ?case
    unfolding copyDocs.simps
    by (intro emits_bnd emits_extCall emits_returnUnlessOK 3) (simp_all add: evClone_def)
qed


lemma emits_cloneCollections:
  "\<forall>ns \<in> fst ` set m. copied E ns \<Longrightarrow> emits (evClone E) (cloneCollections E odb m)"
proof (induction m)
  case Nil
  show ?case by (simp add: emits_ret)
next
  case (Cons a m)
  obtain ns ops where a: "a = (ns, ops)" by (cases a)
  from Cons.prems a have c: "copied E ns" and r: "\<forall>ns \<in> fst ` set m. copied E ns" by auto
  note rest = Cons.IH [OF r]
  have ev: "evClone E (Ext From_repairDatabase x)"
    if "\<forall>n ops. x = CreateCollection n ops \<longrightarrow> copied E n" for x
    using that by (simp add: evClone_def)
  have inner: "emits (evClone E)
     (case map_of odb ns of
        None \<Rightarrow> invariant False
      | Some originalCollection \<Rightarrow>
          bnd (extCall E From_repairDatabase (ContextDb ns True))
            (\<lambda>_. bnd (extCall E From_repairDatabase (IndexInit ns (indexes originalCollection)))
              (\<lambda>_. bnd (returnUnlessOK (initResult E ns (indexes originalCollection)))
                (\<lambda>_. bnd (copyDocs E ns (docs originalCollection))
                  (\<lambda>_. bnd (extCall E From_repairDatabase (ContextDb ns True))
                    (\<lambda>_. bnd (extCall E From_repairDatabase (IndexCommit ns))
                      (\<lambda>_. bnd (returnUnlessOK (commitResult E ns))
                        (\<lambda>_. cloneCollections E odb m))))))))"
  proof (cases "map_of odb ns")
    case None
    then show ?thesis by (simp add: emits_invariant)
  next
    case (Some oc)
    show ?thesis
      unfolding Some option.case
      by (intro emits_bnd emits_extCall emits_returnUnlessOK emits_copyDocs rest ev) simp_all
  qed
  show ?case
    unfolding a cloneCollections.simps
    by (intro emits_bnd emits_extCall inner ev) (simp_all add: c)
qed


lemma emits_clone: "emits (evClone E) (repairDatabase_clone E db rp)"
proof -
  have ev: "evClone E (Ext From_repairDatabase x)" if "\<forall>n ops. x \<noteq> CreateCollection n ops" for x
    using that by (simp add: evClone_def)
  have tail: "emits (evClone E)
     (bnd (cloneCollections E odb m)
        (\<lambda>_. bnd (extCall E From_repairDatabase SyncDataAndTruncateJournal)
          (\<lambda>_. bnd (extCall E From_repairDatabase (FlushAll True))
            (\<lambda>_. bnd (extCall E From_repairDatabase (ContextPath db rp))
              (\<lambda>_. bnd (extCall E From_repairDatabase (CloseDatabase db rp))
                (\<lambda>_. bnd (extCall E From_repairDatabase (ContextNs db))
                  (\<lambda>_. extCall E From_repairDatabase (CloseDatabase db (dbpath E)))))))))"
    if "\<forall>ns \<in> fst ` set m. copied E ns" for odb m
    by (intro emits_bnd emits_extCall emits_cloneCollections that ev) simp_all
  have scan: "emits (evClone E)
     (bnd (case map_of odb (db @ ''.system.namespaces'') of
             None \<Rightarrow> ret []
           | Some c \<Rightarrow> scanNamespaces E (docs c) [])
        (\<lambda>m. bnd (cloneCollections E odb m)
        (\<lambda>_. bnd (extCall E From_repairDatabase SyncDataAndTruncateJournal)
          (\<lambda>_. bnd (extCall E From_repairDatabase (FlushAll True))
            (\<lambda>_. bnd (extCall E From_repairDatabase (ContextPath db rp))
              (\<lambda>_. bnd (extCall E From_repairDatabase (CloseDatabase db rp))
                (\<lambda>_. bnd (extCall E From_repairDatabase (ContextNs db))
                  (\<lambda>_. extCall E From_repairDatabase (CloseDatabase db (dbpath E))))))))))" for odb
  proof (rule emits_bnd_Ret)
    show "emits (evClone E) (case map_of odb (db @ ''.system.namespaces'') of
             None \<Rightarrow> ret [] | Some c \<Rightarrow> scanNamespaces E (docs c) [])"
      by (auto split: option.splits intro: emits_ret emits_scanNamespaces)
  next
    fix m w w0
    assume h: "(case map_of odb (db @ ''.system.namespaces'') of
             None \<Rightarrow> ret [] | Some c \<Rightarrow> scanNamespaces E (docs c) []) w = (Ret m, w0)"
    have "\<forall>ns \<in> fst ` set m. copied E ns"
    proof (cases "map_of odb (db @ ''.system.namespaces'')")
      case None
      with h show ?thesis by (simp add: ret_eq)
    next
      case (Some c)
      with h have "scanNamespaces E (docs c) [] w = (Ret m, w0)" by simp
      from scanNamespaces_result [OF this] show ?thesis by simp
    qed
    then show "emits (evClone E)
     (bnd (cloneCollections E odb m)
        (\<lambda>_. bnd (extCall E From_repairDatabase SyncDataAndTruncateJournal)
          (\<lambda>_. bnd (extCall E From_repairDatabase (FlushAll True))
            (\<lambda>_. bnd (extCall E From_repairDatabase (ContextPath db rp))
              (\<lambda>_. bnd (extCall E From_repairDatabase (CloseDatabase db rp))
                (\<lambda>_. bnd (extCall E From_repairDatabase (ContextNs db))
                  (\<lambda>_. extCall E From_repairDatabase (CloseDatabase db (dbpath E)))))))))"
      by (rule tail)
  qed
  show ?thesis
  proof (cases "originalDatabase E")
    case None
    show ?thesis
      unfolding repairDatabase_clone_def None option.case
      by (intro emits_bnd emits_extCall emits_returnStatus ev) simp
  next
    case (Some odb)
    show ?thesis
      unfolding repairDatabase_clone_def Some option.case
      by (intro emits_bnd emits_extCall emits_invariant scan ev) simp_all
  qed
qed



lemma emits_reserve: "emits evReserve (repairDatabase_reserve E db pr bk)"
proof -
  have fin: "emits evReserve (\<lambda>w. if \<not> pr
                      then (Ret rp,
                            w\<lparr>repairFileDeleter :=
                                Some \<lparr>g_dbName = db, g_pathString = rp,
                                      g_path = rp, g_success = False\<rparr>\<rparr>)
                      else (Ret rp, w))" for rp :: path
    by (rule emitsI) (auto split: if_splits)
  show ?thesis
    unfolding repairDatabase_reserve_def
    by (intro emits_bnd emits_extCall emits_uniqueReservedPath emits_assertOnException
        emits_fs_create_directory fin) (simp_all add: evReserve_def)
qed





lemma emits_renameForBackup: "emits (evDispose E0 db0) (renameForBackup E db rp)"
  unfolding renameForBackup_def
  by (intro emits_bnd emits_ret emits_applyOpToDataFiles)
    (simp_all add: evDispose_def isDisposal_def fileOpEvent_def isLog_def)

lemma emits_deleteDataFiles: "emits (evDispose E0 db0) (deleteDataFiles E db)"
proof (cases "directoryperdb E")
  case True
  then show ?thesis
    unfolding deleteDataFiles_def
    by (simp, intro emits_bnd emits_extCall emits_assertOnException emits_fs_remove_all)
      (simp_all add: evDispose_def isDisposal_def fileOpEvent_def)
next
  case False
  then show ?thesis
    unfolding deleteDataFiles_def
    by (simp, intro emits_bnd emits_ret emits_applyOpToDataFiles)
      (simp_all add: evDispose_def isDisposal_def fileOpEvent_def isLog_def)
qed

lemma emits_dispose: "emits (evDispose E db) (repairDatabase_dispose E db rp bk)"
proof (cases bk)
  case True
  then show ?thesis by (simp add: repairDatabase_dispose_def emits_renameForBackup)
next
  case False
  then show ?thesis
    unfolding repairDatabase_dispose_def
    by (simp, intro emits_bnd emits_ret emits_deleteDataFiles emits_assertOnException
        emits_fs_create_directory) (simp add: evDispose_def)
qed

lemma emits_replaceWithRecovered: "emits (\<lambda>e. isInstall e \<or> isLog e) (replaceWithRecovered E db rp)"
  unfolding replaceWithRecovered_def
  by (intro emits_bnd emits_ret emits_applyOpToDataFiles)
    (simp_all add: isInstall_def fileOpEvent_def isLog_def)

lemma tame_cleanup: "tame locals (RepairFileDeleter_cleanup E g)"
  unfolding RepairFileDeleter_cleanup_def
  by (intro tame_bnd tame_extCall tame_assertOnException tame_fs_remove_all ignores_locals)

lemma emits_cleanup: "emits evGuard (RepairFileDeleter_cleanup E g)"
  unfolding RepairFileDeleter_cleanup_def
  by (intro emits_bnd emits_extCall emits_assertOnException emits_fs_remove_all)
    (simp_all add: evGuard_def)

lemma dtor_split:
  assumes "RepairFileDeleter_dtor E g w = (r, w1)"
  shows "(g_success g \<and> r = Ret () \<and> w1 = w)
     \<or> (\<not> g_success g \<and>
          (\<exists>w0. RepairFileDeleter_cleanup E g
                  (emit (Log (''cleaning up failed repair db: '' @ g_dbName g @ '' path: '' @
                     g_pathString g)) w) = (Throw DBException, w0) \<and>
                r = Fatal (FassertFailed 17402) \<and>
                w1 = emit (Log ''aborting'') (emit (Log ''RepairFileDeleter failed to cleanup: '') w0)))
     \<or> (\<not> g_success g \<and> r \<noteq> Throw DBException \<and>
          RepairFileDeleter_cleanup E g
            (emit (Log (''cleaning up failed repair db: '' @ g_dbName g @ '' path: '' @
               g_pathString g)) w) = (r, w1))"
proof (cases "g_success g")
  case True
  with assms show ?thesis by (simp add: RepairFileDeleter_dtor_def ret_eq)
next
  case False
  let ?w = "emit (Log (''cleaning up failed repair db: '' @ g_dbName g @ '' path: '' @
               g_pathString g)) w"
  obtain r0 w0 where c: "RepairFileDeleter_cleanup E g ?w = (r0, w0)"
    by (cases "RepairFileDeleter_cleanup E g ?w")
  from assms False c have k: "(case (r0, w0) of
            (Throw DBException, w1) \<Rightarrow>
              (Fatal (FassertFailed 17402),
               emit (Log ''aborting'') (emit (Log ''RepairFileDeleter failed to cleanup: '') w1))
          | rw \<Rightarrow> rw) = (r, w1)"
    by (simp add: RepairFileDeleter_dtor_def bnd_def logLine_def)
  show ?thesis
  proof (cases "r0 = Throw DBException")
    case True
    with k c False show ?thesis by simp
  next
    case nt: False
    with k have "(r0, w0) = (r, w1)"
      by (cases r0) (auto split: exn.splits)
    with c nt False show ?thesis by simp
  qed
qed

lemma dtor_run:
  assumes "RepairFileDeleter_dtor E g w = (r, w1)"
  shows "locals w1 = locals w \<and> (\<forall>s. r \<noteq> Return s \<or> \<not> isOK s) \<and>
     (\<exists>t. trace w1 = trace w @ t \<and> list_all evGuard t)"
proof -
  let ?w = "emit (Log (''cleaning up failed repair db: '' @ g_dbName g @ '' path: '' @
               g_pathString g)) w"
  have l: "locals ?w = locals w" "trace ?w = trace w @ [Log (''cleaning up failed repair db: '' @ g_dbName g @ '' path: '' @
               g_pathString g)]"
    by (simp_all add: emit_def locals_def)
  from dtor_split [OF assms] show ?thesis
  proof (elim disjE conjE exE)
    assume "r = Ret ()" "w1 = w"
    then show ?thesis by simp
  next
    fix w0
    assume c: "RepairFileDeleter_cleanup E g ?w = (Throw DBException, w0)"
      and r: "r = Fatal (FassertFailed 17402)"
      and w1: "w1 = emit (Log ''aborting'') (emit (Log ''RepairFileDeleter failed to cleanup: '') w0)"
    from tameD [OF tame_cleanup c] emitsD [OF emits_cleanup c] obtain t where
      "locals w0 = locals ?w" "trace w0 = trace ?w @ t" "list_all evGuard t" by blast
    with l w1 have "locals w1 = locals w"
      "trace w1 = trace w @ (Log (''cleaning up failed repair db: '' @ g_dbName g @ '' path: '' @
               g_pathString g) # t @ [Log ''RepairFileDeleter failed to cleanup: '', Log ''aborting''])"
      "list_all evGuard (Log (''cleaning up failed repair db: '' @ g_dbName g @ '' path: '' @
               g_pathString g) # t @ [Log ''RepairFileDeleter failed to cleanup: '', Log ''aborting''])"
      by (simp_all add: emit_def locals_def evGuard_def isLog_def)
    with r show ?thesis by blast
  next
    assume c: "RepairFileDeleter_cleanup E g ?w = (r, w1)"
    from tameD [OF tame_cleanup c] emitsD [OF emits_cleanup c] obtain t where
      "locals w1 = locals ?w" "\<forall>s. r = Return s \<longrightarrow> \<not> isOK s" "trace w1 = trace ?w @ t" "list_all evGuard t" by blast
    with l have "locals w1 = locals w" "\<forall>s. r \<noteq> Return s \<or> \<not> isOK s"
      "trace w1 = trace w @ (Log (''cleaning up failed repair db: '' @ g_dbName g @ '' path: '' @
               g_pathString g) # t)"
      "list_all evGuard (Log (''cleaning up failed repair db: '' @ g_dbName g @ '' path: '' @
               g_pathString g) # t)"
      by (simp_all add: evGuard_def isLog_def)
    then show ?thesis by blast
  qed
qed

lemma leave_run:
  assumes "leave E r w = (r1, w1)"
  shows "\<not> inDBRepair w1 \<and> (\<exists>t. trace w1 = trace w @ t \<and> list_all evGuard t) \<and>
     (repairFileDeleter w = None \<longrightarrow> r1 = r \<and> w1 = doingRepair_dtor w) \<and>
     (\<forall>g. repairFileDeleter w = Some g \<longrightarrow>
        (\<exists>rd. RepairFileDeleter_dtor E g ((doingRepair_dtor w)\<lparr>repairFileDeleter := None\<rparr>) = (rd, w1) \<and>
           r1 = (case rd of
                   Throw e \<Rightarrow> (case r of Throw e0 \<Rightarrow> Fatal Terminate | _ \<Rightarrow> Throw e)
                 | Fatal x \<Rightarrow> Fatal x
                 | _ \<Rightarrow> r)))"
proof (cases "repairFileDeleter w")
  case None
  with assms show ?thesis by (auto simp: leave_def doingRepair_dtor_def)
next
  case (Some g)
  let ?w = "(doingRepair_dtor w)\<lparr>repairFileDeleter := None\<rparr>"
  obtain rd wd where d: "RepairFileDeleter_dtor E g ?w = (rd, wd)"
    by (cases "RepairFileDeleter_dtor E g ?w")
  from assms Some d have k: "w1 = wd"
    "r1 = (case rd of
                   Throw e \<Rightarrow> (case r of Throw e0 \<Rightarrow> Fatal Terminate | _ \<Rightarrow> Throw e)
                 | Fatal x \<Rightarrow> Fatal x
                 | _ \<Rightarrow> r)"
    by (auto simp: leave_def split: res.splits)
  from dtor_run [OF d] obtain t where "locals wd = locals ?w" "trace wd = trace ?w @ t"
    "list_all evGuard t" by blast
  then have "\<not> inDBRepair wd" "trace wd = trace w @ t" "list_all evGuard t"
    by (simp_all add: locals_def doingRepair_dtor_def)
  with k d Some show ?thesis by auto
qed

lemma doingRepair_ctor_run:
  "doingRepair_ctor w =
     (if inDBRepair w then (Throw DBException, w) else (Ret (), w\<lparr>inDBRepair := True\<rparr>))"
  by (simp add: doingRepair_ctor_def bnd_def verify_def)

lemma repairDatabase_cases:
  assumes "repairDatabase E n pr bk w = (r, w1)"
  obtains (busy) "inDBRepair w" "r = Throw DBException" "w1 = w\<lparr>repairFileDeleter := None\<rparr>"
    | (fatal) x where "\<not> inDBRepair w"
        "repairDatabase_body E (nsToDatabase n) pr bk
           (w\<lparr>repairFileDeleter := None, inDBRepair := True\<rparr>) = (Fatal x, w1)" "r = Fatal x"
    | (left) rb wb where "\<not> inDBRepair w"
        "repairDatabase_body E (nsToDatabase n) pr bk
           (w\<lparr>repairFileDeleter := None, inDBRepair := True\<rparr>) = (rb, wb)"
        "\<forall>x. rb \<noteq> Fatal x"
        "leave E (case rb of Return s \<Rightarrow> Ret s | _ \<Rightarrow> rb) wb = (r, w1)"
proof (cases "inDBRepair w")
  case True
  with assms have "r = Throw DBException" "w1 = w\<lparr>repairFileDeleter := None\<rparr>"
    by (simp_all add: repairDatabase_def doingRepair_ctor_run)
  with True busy show ?thesis by blast
next
  case False
  let ?w = "w\<lparr>repairFileDeleter := None, inDBRepair := True\<rparr>"
  obtain rb wb where b: "repairDatabase_body E (nsToDatabase n) pr bk ?w = (rb, wb)"
    by (cases "repairDatabase_body E (nsToDatabase n) pr bk ?w")
  show ?thesis
  proof (cases rb)
    case (Fatal x)
    with assms False b have "r = Fatal x" "w1 = wb"
      by (simp_all add: repairDatabase_def doingRepair_ctor_run)
    with False b Fatal fatal show ?thesis by blast
  next
    case (Ret s)
    with assms False b have "leave E (case rb of Return s \<Rightarrow> Ret s | _ \<Rightarrow> rb) wb = (r, w1)"
      by (simp add: repairDatabase_def doingRepair_ctor_run)
    with False b Ret left show ?thesis by blast
  next
    case (Return s)
    with assms False b have "leave E (case rb of Return s \<Rightarrow> Ret s | _ \<Rightarrow> rb) wb = (r, w1)"
      by (simp add: repairDatabase_def doingRepair_ctor_run)
    with False b Return left show ?thesis by blast
  next
    case (Throw e)
    with assms False b have "leave E (case rb of Return s \<Rightarrow> Ret s | _ \<Rightarrow> rb) wb = (r, w1)"
      by (simp add: repairDatabase_def doingRepair_ctor_run)
    with False b Throw left show ?thesis by blast
  qed
qed




lemma emits_install: "emits (evInstall rp) (repairDatabase_install E db rp bk)"
proof -
  have s: "emits (evInstall rp) RepairFileDeleter_success"
    by (rule emitsI) (auto simp: RepairFileDeleter_success_def emit_def evInstall_def split: option.splits)
  have r: "emits (evInstall rp) (replaceWithRecovered E db rp)"
    by (rule emits_mono [OF emits_replaceWithRecovered]) (auto simp: evInstall_def)
  show ?thesis
    unfolding repairDatabase_install_def
    by (intro emits_bnd s r emits_ret)
      (auto intro!: emits_ret emits_assertOnException emits_fs_remove_all simp: evInstall_def)
qed




lemmas repair_defs = repairDatabase_def doingRepair_ctor_def verify_def invariant_def
  repairDatabase_body_def repairDatabase_check_def repairDatabase_measure_def dbSize_def
  returnStatus_def returnUnlessOK_def outOfDiskSpaceMessage_def repairDatabase_reserve_def
  uniqueReservedPath_def uniqueReservedPath_loop.simps reservedName_def
  fs_create_directory_def repairDatabase_clone_def leave_def doingRepair_dtor_def
  RepairFileDeleter_dtor_def RepairFileDeleter_cleanup_def fs_remove_all_def eraseTree_def
  isUnder_def nsToDatabase_def











text \<open>The same abrupt outcome, at two result types.\<close>

definition sameAbrupt :: "'a res \<Rightarrow> 'b res \<Rightarrow> bool" where
  "sameAbrupt r0 r =
     ((\<exists>s. r0 = Return s \<and> r = Return s) \<or> (\<exists>e. r0 = Throw e \<and> r = Throw e) \<or>
      (\<exists>x. r0 = Fatal x \<and> r = Fatal x))"

lemma bnd_cases:
  assumes "bnd m k w = (r, w1)"
  obtains (go) x w0 where "m w = (Ret x, w0)" "k x w0 = (r, w1)"
    | (stop) r0 where "m w = (r0, w1)" "sameAbrupt r0 r"
  using bnd_split [OF assms] unfolding sameAbrupt_def by blast

lemma sameAbrupt_simps [simp]:
  "\<not> sameAbrupt r0 (Ret x)" "\<not> sameAbrupt (Ret y) r"
  "sameAbrupt r0 (Return s) \<longleftrightarrow> r0 = Return s"
  "sameAbrupt r0 (Throw e) \<longleftrightarrow> r0 = Throw e"
  "sameAbrupt r0 (Fatal z) \<longleftrightarrow> r0 = Fatal z"
  by (auto simp: sameAbrupt_def)



definition evBody :: "env \<Rightarrow> string \<Rightarrow> event \<Rightarrow> bool" where
  "evBody E db e =
     (evCheck E db e \<or> evReserve e \<or> evClone E e \<or> evDispose E db e \<or> (\<exists>rp. evInstall rp e))"

lemma emits_body: "emits (evBody E db) (repairDatabase_body E db pr bk)"
  unfolding repairDatabase_body_def
  by (intro emits_bnd emits_mono [OF emits_check] emits_mono [OF emits_reserve]
      emits_mono [OF emits_clone] emits_mono [OF emits_dispose] emits_mono [OF emits_install])
    (auto simp: evBody_def)






definition env_rm :: env where
  "env_rm = env1\<lparr>fault := (\<lambda>h e. if e = Fs From_RepairFileDeleter (RemoveAll ''/r/_tmp_repairDatabase_0'')
                               then Some filesystem_error else None)\<rparr>"



lemma run_cleanup:
  "fst (repairDatabase env1 ''a'' False False state1)
     = Ret (Status NamespaceNotFound ''database does not exist to repair'')"
  "take 6 (rev (trace (snd (repairDatabase env1 ''a'' False False state1)))) =
     rev [Log ''cleaning up failed repair db: a path: /r/_tmp_repairDatabase_0'',
        Ext From_RepairFileDeleter SyncDataAndTruncateJournal,
        Ext From_RepairFileDeleter (FlushAll True),
        Ext From_RepairFileDeleter (ContextPath ''a'' ''/r/_tmp_repairDatabase_0''),
        Ext From_RepairFileDeleter (CloseDatabase ''a'' ''/r/_tmp_repairDatabase_0''),
        Fs From_RepairFileDeleter (RemoveAll ''/r/_tmp_repairDatabase_0'')]"
  "lookup (fs (snd (repairDatabase env1 ''a'' False False state1))) ''/r/_tmp_repairDatabase_0''
     = None"
  by (simp_all add: repair_defs run_defs env1_def state1_def)

lemma run_rm:
  "fst (repairDatabase env_rm ''a'' False False state1) = Fatal (FassertFailed 17402)"
  by (simp add: repair_defs run_defs env_rm_def env1_def state1_def)






lemma tame_extCall_fs: "\<forall>e f. extEffect E e f = f \<Longrightarrow> tame fs (extCall E og c)"
  by (rule tameI) (auto simp: extCall_def emit_def split: option.splits)

lemma tame_measure_fs:
  "\<forall>e f. extEffect E e f = f \<Longrightarrow> tame fs (repairDatabase_measure E db)"
  unfolding repairDatabase_measure_def
  by (intro tame_bnd tame_logLine tame_invariant tame_extCall_fs tame_dbSize_fs ignoresTrace_fs)

lemma evCheck_no_reserve:
  "evCheck E db e \<Longrightarrow>
     (\<forall>p. e \<noteq> Fs From_repairDatabase (CreateDirectory p)) \<and> (\<forall>og p. e \<noteq> Fs From_uniqueReservedPath p) \<and>
     eventOrigin e \<noteq> Some From_RepairFileDeleter"
  by (auto simp: evCheck_def evMeasure_def fileOpEvent_def isLog_def)

text \<open>
  Claim C3.  Take a call that finds no repair in progress and gets as far as the
  comparison: the preconditions hold, the enumerator with the size operation yields
  \<^verbatim>\<open>totalSize\<close> (the \<^verbatim>\<open>intmax_t\<close> the accumulator holds), and the free-space
  query does not throw.  If the free space is known
  and less than \<^verbatim>\<open>totalSize\<close>, the call returns \<^verbatim>\<open>OutOfDiskSpace\<close> with both byte
  counts in the message.  It has then probed no reserved path and created no directory, no
  guard exists or runs, and where calls outside this file leave the files alone the files
  are as before.
\<close>

theorem out_of_disk_space_before_reserving:
  "\<not> inDBRepair w \<and>
   repairDatabase_measure E (nsToDatabase n) (w\<lparr>repairFileDeleter := None, inDBRepair := True\<rparr>)
     = (Ret totalSize, wa) \<and>
   fault E (trace wa) (Ext From_repairDatabase (FreeSpace (repairpath E))) = None \<and>
   0 \<le> freeSpace E \<and> freeSpace E < totalSize \<longrightarrow>
   (\<exists>w1 t.
      repairDatabase E n pr bk w =
        (Ret (Status OutOfDiskSpace
           (''Cannot repair database '' @ nsToDatabase n @ '' having size: '' @
            decimalInt totalSize @ '' (bytes) because free disk space is: '' @
            decimalInt (freeSpace E) @ '' (bytes)'')), w1) \<and>
      trace w1 = trace w @ t \<and>
      (\<forall>p. Fs From_repairDatabase (CreateDirectory p) \<notin> set t) \<and>
      (\<forall>p. Fs From_uniqueReservedPath p \<notin> set t) \<and>
      (\<forall>e \<in> set t. eventOrigin e \<noteq> Some From_RepairFileDeleter) \<and>
      repairFileDeleter w1 = None \<and> \<not> inDBRepair w1 \<and>
      ((\<forall>e f. extEffect E e f = f) \<longrightarrow> fs w1 = fs w))"
proof
  let ?db = "nsToDatabase n"
  let ?w0 = "w\<lparr>repairFileDeleter := None, inDBRepair := True\<rparr>"
  let ?ev = "Ext From_repairDatabase (FreeSpace (repairpath E))"
  let ?st = "Status OutOfDiskSpace
           (''Cannot repair database '' @ nsToDatabase n @ '' having size: '' @
            decimalInt totalSize @ '' (bytes) because free disk space is: '' @
            decimalInt (freeSpace E) @ '' (bytes)'')"
  assume a: "\<not> inDBRepair w \<and>
   repairDatabase_measure E ?db ?w0 = (Ret totalSize, wa) \<and>
   fault E (trace wa) ?ev = None \<and> 0 \<le> freeSpace E \<and> freeSpace E < totalSize"
  then have nb: "\<not> inDBRepair w" and m: "repairDatabase_measure E ?db ?w0 = (Ret totalSize, wa)"
    and nf: "fault E (trace wa) ?ev = None" and fr: "0 \<le> freeSpace E" "freeSpace E < totalSize"
    by simp_all
  let ?wb = "(emit ?ev wa)\<lparr>fs := extEffect E ?ev (fs wa)\<rparr>"
  have c: "repairDatabase_check E ?db ?w0 = (Return ?st, ?wb)"
    using m nf fr
    by (simp add: repairDatabase_check_def bnd_def extCall_def returnStatus_def
        outOfDiskSpaceMessage_def)
  then have b: "repairDatabase_body E ?db pr bk ?w0 = (Return ?st, ?wb)"
    by (simp add: repairDatabase_body_def bnd_def)
  from tameD [OF tame_measure m] have l: "repairFileDeleter wa = None" "inDBRepair wa"
    by (simp_all add: locals_def)
  let ?w1 = "doingRepair_dtor ?wb"
  from b nb l have run: "repairDatabase E n pr bk w = (Ret ?st, ?w1)"
    by (simp add: repairDatabase_def doingRepair_ctor_run leave_def emit_def)
  from emitsD [OF emits_check c] obtain t where
    t: "trace ?wb = trace ?w0 @ t" "list_all (evCheck E ?db) t" by blast
  then have t1: "trace ?w1 = trace w @ t" by (simp add: doingRepair_dtor_def)
  from t(2) have ev: "\<forall>e \<in> set t. evCheck E ?db e" by (simp add: list_all_iff)
  have n1: "\<forall>p. Fs From_repairDatabase (CreateDirectory p) \<notin> set t"
  proof (intro allI notI)
    fix p assume "Fs From_repairDatabase (CreateDirectory p) \<in> set t"
    with ev have "evCheck E ?db (Fs From_repairDatabase (CreateDirectory p))" by (rule bspec)
    from evCheck_no_reserve [OF this] show False by simp
  qed
  have n2: "\<forall>p. Fs From_uniqueReservedPath p \<notin> set t"
  proof (intro allI notI)
    fix p assume "Fs From_uniqueReservedPath p \<in> set t"
    with ev have "evCheck E ?db (Fs From_uniqueReservedPath p)" by (rule bspec)
    from evCheck_no_reserve [OF this] show False by simp
  qed
  have n3: "\<forall>e \<in> set t. eventOrigin e \<noteq> Some From_RepairFileDeleter"
  proof
    fix e assume "e \<in> set t"
    with ev have "evCheck E ?db e" by (rule bspec)
    from evCheck_no_reserve [OF this] show "eventOrigin e \<noteq> Some From_RepairFileDeleter" by simp
  qed
  have g: "repairFileDeleter ?w1 = None" "\<not> inDBRepair ?w1"
    using l by (simp_all add: doingRepair_dtor_def emit_def)
  have f: "(\<forall>e f. extEffect E e f = f) \<longrightarrow> fs ?w1 = fs w"
  proof
    assume x: "\<forall>e f. extEffect E e f = f"
    from tameD [OF tame_measure_fs [OF x] m] have "fs wa = fs w" by simp
    with x show "fs ?w1 = fs w" by (simp add: doingRepair_dtor_def emit_def)
  qed
  from run t1 n1 n2 n3 g f
  show "\<exists>w1 t.
      repairDatabase E n pr bk w = (Ret ?st, w1) \<and>
      trace w1 = trace w @ t \<and>
      (\<forall>p. Fs From_repairDatabase (CreateDirectory p) \<notin> set t) \<and>
      (\<forall>p. Fs From_uniqueReservedPath p \<notin> set t) \<and>
      (\<forall>e \<in> set t. eventOrigin e \<noteq> Some From_RepairFileDeleter) \<and>
      repairFileDeleter w1 = None \<and> \<not> inDBRepair w1 \<and>
      ((\<forall>e f. extEffect E e f = f) \<longrightarrow> fs w1 = fs w)"
    by (intro exI [of _ ?w1] exI [of _ t] conjI)
qed

text \<open>The database's files take 80 bytes and 50 are free.\<close>

definition env_full :: env where
  "env_full = env1\<lparr>freeSpace := 50, extEffect := (\<lambda>e f. f)\<rparr>"

lemma measure_full:
  "fst (repairDatabase_measure env_full ''a'' (state1\<lparr>repairFileDeleter := None, inDBRepair := True\<rparr>))
     = Ret 80"
  by (simp add: repair_defs run_defs env_full_def env1_def state1_def)

theorem out_of_disk_space_before_reserving_witness:
  "fst (repairDatabase env_full ''a'' False False state1) =
     Ret (Status OutOfDiskSpace
       ''Cannot repair database a having size: 80 (bytes) because free disk space is: 50 (bytes)'')
   \<and> fs (snd (repairDatabase env_full ''a'' False False state1)) = fs state1
   \<and> repairFileDeleter (snd (repairDatabase env_full ''a'' False False state1)) = None"
proof -
  let ?w0 = "state1\<lparr>repairFileDeleter := None, inDBRepair := True\<rparr>"
  let ?m = "repairDatabase_measure env_full ''a'' ?w0"
  have db: "nsToDatabase ''a'' = ''a''" by (simp add: nsToDatabase_def)
  have m: "repairDatabase_measure env_full (nsToDatabase ''a'') ?w0 = (Ret 80, snd ?m)"
    using measure_full by (cases ?m) (simp add: db)
  have h: "\<not> inDBRepair state1"
    "fault env_full (trace (snd ?m)) (Ext From_repairDatabase (FreeSpace (repairpath env_full))) = None"
    "0 \<le> freeSpace env_full" "freeSpace env_full < 80"
    "\<forall>e f. extEffect env_full e f = f"
    by (simp_all add: env_full_def env1_def state1_def)
  from out_of_disk_space_before_reserving [of state1 env_full "''a''" 80 "snd ?m" False False]
    m h(1-4)
  obtain w1 where r: "repairDatabase env_full ''a'' False False state1 =
        (Ret (Status OutOfDiskSpace
           (''Cannot repair database '' @ nsToDatabase ''a'' @ '' having size: '' @
            decimalInt 80 @ '' (bytes) because free disk space is: '' @
            decimalInt (freeSpace env_full) @ '' (bytes)'')), w1)"
    and k: "repairFileDeleter w1 = None" "(\<forall>e f. extEffect env_full e f = f) \<longrightarrow> fs w1 = fs state1"
    by blast
  have msg: "''Cannot repair database '' @ nsToDatabase ''a'' @ '' having size: '' @
            decimalInt 80 @ '' (bytes) because free disk space is: '' @
            decimalInt (freeSpace env_full) @ '' (bytes)'' =
     ''Cannot repair database a having size: 80 (bytes) because free disk space is: 50 (bytes)''"
    by (simp add: db env_full_def decimalInt_def decimal.simps digit_def)
  from r k h(5) msg show ?thesis by simp
qed

text \<open>What the size accumulator holds at the end: the sizes of the files the enumerator
  found, added up in an \<^verbatim>\<open>intmax_t\<close>.\<close>

definition fileBytes :: "fsys \<Rightarrow> path \<Rightarrow> int" where
  "fileBytes f p = (case lookup f p of Some (File n) \<Rightarrow> int n | _ \<Rightarrow> 0)"

definition handledBytes :: "fsys \<Rightarrow> event list \<Rightarrow> int" where
  "handledBytes f t = sum_list (map (\<lambda>qb. if snd qb then fileBytes f (fst qb) else 0) (applied t))"

lemma intmax_add: "intmax (intmax a + b) = intmax (a + b)"
proof -
  have "intmax a + b + 9223372036854775808 =
      (a + 9223372036854775808) mod 18446744073709551616 + b"
    by (simp add: intmax_def)
  then have "(intmax a + b + 9223372036854775808) mod 18446744073709551616 =
      ((a + 9223372036854775808) mod 18446744073709551616 + b) mod 18446744073709551616"
    by (simp only:)
  also have "\<dots> = (a + 9223372036854775808 + b) mod 18446744073709551616"
    by (rule mod_add_left_eq)
  finally have x: "(intmax a + b + 9223372036854775808) mod 18446744073709551616 =
      (a + b + 9223372036854775808) mod 18446744073709551616"
    by (simp only: add.assoc add.commute [of 9223372036854775808 b])
  show ?thesis
    unfolding intmax_def [of "intmax a + b"] intmax_def [of "a + b"]
    by (rule arg_cong [where f = "\<lambda>x. x - 9223372036854775808", OF x])
qed

lemma intmax_idem: "intmax (intmax a) = intmax a"
  using intmax_add [of a 0] by simp

lemma handledBytes_append: "handledBytes f (a @ b) = handledBytes f a + handledBytes f b"
  by (simp add: handledBytes_def applied_append)

lemma sizeApply:
  assumes "FileOp_apply E (SizeAccumulator acc) q w = (Ret (ok, fo1), w0)"
  shows "fs w0 = fs w \<and>
     fo1 = SizeAccumulator (if ok then intmax (acc + fileBytes (fs w) q) else acc)"
proof -
  from bnd_RetD [OF assms [unfolded FileOp_apply.simps]] obtain ex wa where
    a: "fs_exists E FromSizeAccumulator q w = (Ret ex, wa)"
    and b: "(if \<not> ex then ret (False, SizeAccumulator acc)
       else bnd (fs_file_size E FromSizeAccumulator q)
              (\<lambda>n. ret (True, SizeAccumulator (intmax (acc + int n))))) wa = (Ret (ok, fo1), w0)"
    by blast
  from a have fa: "fs wa = fs w"
    by (auto simp: fs_exists_def fsCall_def emit_def split: option.splits)
  show ?thesis
  proof (cases ex)
    case False
    with b fa show ?thesis by (simp add: ret_def)
  next
    case True
    with b have "bnd (fs_file_size E FromSizeAccumulator q)
              (\<lambda>n. ret (True, SizeAccumulator (intmax (acc + int n)))) wa = (Ret (ok, fo1), w0)"
      by simp
    from bnd_RetD [OF this] obtain n wb where
      c: "fs_file_size E FromSizeAccumulator q wa = (Ret n, wb)"
      and d: "ret (True, SizeAccumulator (intmax (acc + int n))) wb = (Ret (ok, fo1), w0)" by blast
    from c have "fs wb = fs wa \<and> lookup (fs wa) q = Some (File n)"
      by (auto simp: fs_file_size_def fsCall_def emit_def split: option.splits entry.splits)
    with d fa show ?thesis by (auto simp: ret_def fileBytes_def)
  qed
qed

lemma sizeChecked:
  assumes "applyChecked E (SizeAccumulator acc) q w = (Ret (ok, fo1), w0)"
  shows "fs w0 = fs w \<and>
     fo1 = SizeAccumulator (if ok then intmax (acc + fileBytes (fs w) q) else acc) \<and>
     (\<exists>t. trace w0 = trace w @ t \<and> applied t = [(q, ok)])"
proof -
  from applyChecked_split [OF assms] obtain wa where
    a: "assertOnException (FileOp_apply E (SizeAccumulator acc) q) w = (Ret (ok, fo1), wa)"
    and w0: "w0 = emit (Applied (originOf (SizeAccumulator acc)) q ok) wa" by auto
  from assertOnException_split [OF a]
  have "FileOp_apply E (SizeAccumulator acc) q w = (Ret (ok, fo1), wa)" by auto
  from sizeApply [OF this] w0 applyChecked_applied [OF assms] show ?thesis
    by (simp add: emit_def)
qed

lemma sizeLoop:
  "applyLoop E (SizeAccumulator acc) p c i extra w = (Ret fo, w1) \<Longrightarrow>
     fs w1 = fs w \<and>
     (\<exists>t acc1. trace w1 = trace w @ t \<and> fo = SizeAccumulator acc1 \<and>
        intmax acc1 = intmax (acc + handledBytes (fs w) t) \<and>
        (intmax acc = acc \<longrightarrow> intmax acc1 = acc1))"
proof (induction n \<equiv> "Suc (MaxFiles E) - i" arbitrary: i acc extra w)
  case 0
  from "0.prems"(1) show ?case
  proof (cases rule: applyLoop_cases)
    case over then show ?thesis by simp
  qed (use 0 in simp_all)
next
  case (Suc n)
  let ?q = "slash p (c @ decimal i)"
  have n: "n = Suc (MaxFiles E) - Suc i" using Suc.hyps(2) by simp
  from Suc.prems(1) show ?case
  proof (cases rule: applyLoop_cases)
    case over then show ?thesis by simp
  next
    case (hit fo1 w0)
    let ?acc = "intmax (acc + fileBytes (fs w) ?q)"
    let ?w = "if extra \<noteq> 10
          then emit (Log (''  _applyOpToDataFiles() warning: extra == '' @ decimalInt extra))
                 (emit (Log (op fo1 @ '' file '' @ slash p (c @ decimal i))) w0)
          else w0"
    from sizeChecked [OF hit(2)] obtain t0 where f0: "fs w0 = fs w"
      and fo1: "fo1 = SizeAccumulator ?acc"
      and t0: "trace w0 = trace w @ t0" "applied t0 = [(?q, True)]" by auto
    obtain t2 where t2: "trace ?w = trace w0 @ t2" "applied t2 = []" and f2: "fs ?w = fs w0"
      by (cases "extra \<noteq> 10") (simp_all add: emit_def applied_def)
    from hit(3) fo1 have "applyLoop E (SizeAccumulator ?acc) p c (Suc i) extra ?w = (Ret fo, w1)"
      by simp
    from Suc.hyps(1) [OF n this] obtain t1 acc1 where f1: "fs w1 = fs ?w"
      and t1: "trace w1 = trace ?w @ t1" and e: "fo = SizeAccumulator acc1"
      and s: "intmax acc1 = intmax (?acc + handledBytes (fs ?w) t1)"
      and rg: "intmax ?acc = ?acc \<longrightarrow> intmax acc1 = acc1" by blast
    from t0 t2 have h: "handledBytes (fs w) (t0 @ t2 @ t1) =
        fileBytes (fs w) ?q + handledBytes (fs w) t1"
      by (simp add: handledBytes_def applied_append)
    from s f2 f0 have "intmax acc1 = intmax (acc + fileBytes (fs w) ?q + handledBytes (fs w) t1)"
      by (simp add: intmax_add)
    with h have s': "intmax acc1 = intmax (acc + handledBytes (fs w) (t0 @ t2 @ t1))"
      by (simp add: add.assoc)
    from rg have rg': "intmax acc1 = acc1" by (simp add: intmax_idem)
    from t0 t1 t2 have "trace w1 = trace w @ (t0 @ t2 @ t1)" by simp
    with f0 f1 f2 e s' rg' show ?thesis by auto
  next
    case (last fo1)
    from sizeChecked [OF last(2)] obtain t0 where f0: "fs w1 = fs w"
      and fo1: "fo1 = SizeAccumulator acc"
      and t0: "trace w1 = trace w @ t0" "applied t0 = [(?q, False)]" by auto
    from t0(2) have "handledBytes (fs w) t0 = 0" by (simp add: handledBytes_def)
    with f0 fo1 t0(1) last(4) show ?thesis by auto
  next
    case (miss fo1 w0)
    from sizeChecked [OF miss(2)] obtain t0 where f0: "fs w0 = fs w"
      and fo1: "fo1 = SizeAccumulator acc"
      and t0: "trace w0 = trace w @ t0" "applied t0 = [(?q, False)]" by auto
    from miss(4) fo1 have "applyLoop E (SizeAccumulator acc) p c (Suc i) (extra - 1) w0 = (Ret fo, w1)"
      by simp
    from Suc.hyps(1) [OF n this] obtain t1 acc1 where f1: "fs w1 = fs w0"
      and t1: "trace w1 = trace w0 @ t1" and e: "fo = SizeAccumulator acc1"
      and s: "intmax acc1 = intmax (acc + handledBytes (fs w0) t1)"
      and rg: "intmax acc = acc \<longrightarrow> intmax acc1 = acc1" by blast
    from t0(2) have "handledBytes (fs w) (t0 @ t1) = handledBytes (fs w) t1"
      by (simp add: handledBytes_def applied_append)
    with s f0 have "intmax acc1 = intmax (acc + handledBytes (fs w) (t0 @ t1))" by simp
    moreover from t0 t1 have "trace w1 = trace w @ (t0 @ t1)" by simp
    ultimately show ?thesis using f0 f1 e rg by auto
  next
    case (fail r0)
    then show ?thesis by simp
  qed
qed

lemma dbSize_total:
  assumes "dbSize E db w = (Ret totalSize, w1)"
  shows "fs w1 = fs w \<and>
     (\<exists>t. trace w1 = trace w @ t \<and> totalSize = intmax (handledBytes (fs w) t))"
proof -
  let ?p = "if directoryperdb E then slash (dbpath E) db else dbpath E"
  let ?q = "slash ?p ((db @ ''.'') @ ''ns'')"
  from bnd_RetD [OF assms [unfolded dbSize_def]] obtain sa where
    a: "applyOpToDataFiles E db (SizeAccumulator 0) False (dbpath E) w = (Ret sa, w1)"
    and ts: "totalSize = FileOp_size sa" by (auto simp: ret_eq)
  from a have "bnd (applyChecked E (SizeAccumulator 0) ?q)
         (\<lambda>r. bnd (if fst r then logLine (op (snd r) @ '' file '' @ ?q) else ret ())
           (\<lambda>_. applyLoop E (snd r) ?p (db @ ''.'') 0 10)) w = (Ret sa, w1)"
    by (simp add: applyOpToDataFiles_def bnd_def ret_def)
  from bnd_RetD [OF this] obtain x w0 where
    b: "applyChecked E (SizeAccumulator 0) ?q w = (Ret x, w0)"
    and c: "bnd (if fst x then logLine (op (snd x) @ '' file '' @ ?q) else ret ())
           (\<lambda>_. applyLoop E (snd x) ?p (db @ ''.'') 0 10) w0 = (Ret sa, w1)" by blast
  obtain ok fo1 where x: "x = (ok, fo1)" by (cases x)
  let ?acc = "if ok then intmax (0 + fileBytes (fs w) ?q) else 0"
  from sizeChecked [OF b [unfolded x]] obtain t0 where f0: "fs w0 = fs w"
    and fo1: "fo1 = SizeAccumulator ?acc"
    and t0: "trace w0 = trace w @ t0" "applied t0 = [(?q, ok)]" by auto
  from bnd_RetD [OF c] obtain u w2 where
    d: "(if fst x then logLine (op (snd x) @ '' file '' @ ?q) else ret ()) w0 = (Ret u, w2)"
    and e: "applyLoop E (snd x) ?p (db @ ''.'') 0 10 w2 = (Ret sa, w1)" by blast
  from d obtain t2 where t2: "trace w2 = trace w0 @ t2" "applied t2 = []" and f2: "fs w2 = fs w0"
    by (cases "fst x") (auto simp: logLine_def ret_def emit_def applied_def)
  from e x fo1 have "applyLoop E (SizeAccumulator ?acc) ?p (db @ ''.'') 0 10 w2 = (Ret sa, w1)"
    by simp
  from sizeLoop [OF this] obtain t1 acc1 where f1: "fs w1 = fs w2"
    and t1: "trace w1 = trace w2 @ t1" and sa: "sa = SizeAccumulator acc1"
    and s: "intmax acc1 = intmax (?acc + handledBytes (fs w2) t1)"
    and rg: "intmax ?acc = ?acc \<longrightarrow> intmax acc1 = acc1" by blast
  have "intmax ?acc = ?acc" by (simp add: intmax_idem) (simp add: intmax_def)
  with rg have r1: "intmax acc1 = acc1" by simp
  from t0(2) t2(2) have h: "handledBytes (fs w) (t0 @ t2 @ t1) =
      (if ok then fileBytes (fs w) ?q else 0) + handledBytes (fs w) t1"
    by (simp add: handledBytes_def applied_append)
  from s f2 f0 have "intmax acc1 =
      intmax ((if ok then fileBytes (fs w) ?q else 0) + handledBytes (fs w) t1)"
    by (cases ok) (simp_all add: intmax_add)
  with h r1 have "acc1 = intmax (handledBytes (fs w) (t0 @ t2 @ t1))" by simp
  moreover from t0 t1 t2 have "trace w1 = trace w @ (t0 @ t2 @ t1)" by simp
  ultimately show ?thesis using f0 f1 f2 ts sa by auto
qed

text \<open>So the sum wraps: with two extents of \<open>2 ^ 62\<close> bytes the total is negative, the
  comparison with 1000 free bytes fails, and the call goes on to reserve a directory.\<close>

definition state_huge :: state where
  "state_huge = \<lparr>fs = [(''/d/a.ns'', File 16), (''/d/a.0'', File 4611686018427387904),
       (''/d/a.1'', File 4611686018427387904)],
     inDBRepair = False, trace = [], repairFileDeleter = None\<rparr>"

lemma dbSize_wraps:
  "fst (dbSize env1 ''a'' state_huge) = Ret (- 9223372036854775792)"
  by (simp add: dbSize_def run_defs env1_def state_huge_def)

lemma run_huge:
  "\<exists>w1. repairDatabase env1 ''a'' False False state_huge =
          (Ret (Status NamespaceNotFound ''database does not exist to repair''), w1) \<and>
     Fs From_repairDatabase (CreateDirectory ''/r/_tmp_repairDatabase_0'') \<in> set (trace w1)"
  by (simp add: repair_defs run_defs env1_def state_huge_def)

lemma coll_db: "CHR ''.'' \<notin> set db \<Longrightarrow> coll (db @ CHR ''.'' # c) = c"
  by (induction db) (auto simp: coll_def)

lemma nsToDatabase_no_dot: "CHR ''.'' \<notin> set (nsToDatabase n)"
  unfolding nsToDatabase_def by (induction n) auto

lemma copied_not_system:
  assumes "copied E ns"
  shows "isNormal E ns \<and> coll ns \<noteq> ''system.namespaces'' \<and> coll ns \<noteq> ''system.indexes'' \<and>
     ns \<noteq> nsToDatabase n @ ''.system.namespaces'' \<and> ns \<noteq> nsToDatabase n @ ''.system.indexes''"
proof -
  have a: "coll (nsToDatabase n @ ''.system.namespaces'') = ''system.namespaces''"
    using coll_db [OF nsToDatabase_no_dot, of n "''system.namespaces''"] by simp
  have b: "coll (nsToDatabase n @ ''.system.indexes'') = ''system.indexes''"
    using coll_db [OF nsToDatabase_no_dot, of n "''system.indexes''"] by simp
  from assms a b show ?thesis by (auto simp: copied_def)
qed

lemma evBody_create:
  "evBody E db (Ext og (CreateCollection ns ops)) \<Longrightarrow> copied E ns"
  by (auto simp: evBody_def evCheck_def evMeasure_def fileOpEvent_def evReserve_def evClone_def
      evDispose_def evInstall_def isLog_def isDisposal_def isInstall_def)

lemma evGuard_create: "\<not> evGuard (Ext og (CreateCollection ns ops))"
  by (simp add: evGuard_def isLog_def)

lemma repairDatabase_trace:
  assumes "repairDatabase E n pr bk w = (r, w1)"
  shows "\<exists>t. trace w1 = trace w @ t \<and>
     list_all (\<lambda>e. evBody E (nsToDatabase n) e \<or> evGuard e) t"
  using assms
proof (cases rule: repairDatabase_cases)
  case busy
  then show ?thesis by simp
next
  case (fatal x)
  from emitsD [OF emits_body fatal(2)] obtain t where
    "trace w1 = trace w @ t" "list_all (evBody E (nsToDatabase n)) t" by auto
  then show ?thesis by (auto simp: list_all_iff)
next
  case (left rb wb)
  from emitsD [OF emits_body left(2)] obtain t where
    t: "trace wb = trace w @ t" "list_all (evBody E (nsToDatabase n)) t" by auto
  from leave_run [OF left(4)] obtain t2 where
    t2: "trace w1 = trace wb @ t2" "list_all evGuard t2" by blast
  from t t2 have "trace w1 = trace w @ (t @ t2)"
    "list_all (\<lambda>e. evBody E (nsToDatabase n) e \<or> evGuard e) (t @ t2)"
    by (auto simp: list_all_iff)
  then show ?thesis by blast
qed

text \<open>
  Claim C5.  Every namespace the catalog scan records is normal and is neither a
  \<^verbatim>\<open>system.namespaces\<close> nor a \<^verbatim>\<open>system.indexes\<close> collection, in particular not the
  two of the database under repair; and in every run of \<^verbatim>\<open>repairDatabase\<close>, however
  it ends, each collection created in the temp database has such a namespace.
\<close>

theorem system_catalogs_never_copied:
  "(scanNamespaces E ds [] w = (Ret namespacesToCopy, w0) \<longrightarrow>
      (\<forall>ns \<in> fst ` set namespacesToCopy.
         isNormal E ns \<and> coll ns \<noteq> ''system.namespaces'' \<and> coll ns \<noteq> ''system.indexes'' \<and>
         ns \<noteq> nsToDatabase n @ ''.system.namespaces'' \<and>
         ns \<noteq> nsToDatabase n @ ''.system.indexes''))
   \<and> (repairDatabase E n pr bk w = (r, w1) \<longrightarrow>
      (\<exists>t. trace w1 = trace w @ t \<and>
         (\<forall>og ns ops. Ext og (CreateCollection ns ops) \<in> set t \<longrightarrow>
            isNormal E ns \<and> coll ns \<noteq> ''system.namespaces'' \<and> coll ns \<noteq> ''system.indexes'' \<and>
            ns \<noteq> nsToDatabase n @ ''.system.namespaces'' \<and>
            ns \<noteq> nsToDatabase n @ ''.system.indexes'')))"
proof -
  have a: "scanNamespaces E ds [] w = (Ret namespacesToCopy, w0) \<longrightarrow>
      (\<forall>ns \<in> fst ` set namespacesToCopy.
         isNormal E ns \<and> coll ns \<noteq> ''system.namespaces'' \<and> coll ns \<noteq> ''system.indexes'' \<and>
         ns \<noteq> nsToDatabase n @ ''.system.namespaces'' \<and>
         ns \<noteq> nsToDatabase n @ ''.system.indexes'')"
  proof (intro impI ballI)
    fix ns
    assume s: "scanNamespaces E ds [] w = (Ret namespacesToCopy, w0)"
      and k: "ns \<in> fst ` set namespacesToCopy"
    from scanNamespaces_result [OF s] k have "copied E ns" by auto
    then show "isNormal E ns \<and> coll ns \<noteq> ''system.namespaces'' \<and> coll ns \<noteq> ''system.indexes'' \<and>
         ns \<noteq> nsToDatabase n @ ''.system.namespaces'' \<and>
         ns \<noteq> nsToDatabase n @ ''.system.indexes''"
      by (rule copied_not_system)
  qed
  have b: "repairDatabase E n pr bk w = (r, w1) \<longrightarrow>
      (\<exists>t. trace w1 = trace w @ t \<and>
         (\<forall>og ns ops. Ext og (CreateCollection ns ops) \<in> set t \<longrightarrow>
            isNormal E ns \<and> coll ns \<noteq> ''system.namespaces'' \<and> coll ns \<noteq> ''system.indexes'' \<and>
            ns \<noteq> nsToDatabase n @ ''.system.namespaces'' \<and>
            ns \<noteq> nsToDatabase n @ ''.system.indexes''))"
  proof
    assume "repairDatabase E n pr bk w = (r, w1)"
    from repairDatabase_trace [OF this] obtain t where
      t: "trace w1 = trace w @ t"
        "list_all (\<lambda>e. evBody E (nsToDatabase n) e \<or> evGuard e) t" by blast
    have "\<forall>og ns ops. Ext og (CreateCollection ns ops) \<in> set t \<longrightarrow>
            isNormal E ns \<and> coll ns \<noteq> ''system.namespaces'' \<and> coll ns \<noteq> ''system.indexes'' \<and>
            ns \<noteq> nsToDatabase n @ ''.system.namespaces'' \<and>
            ns \<noteq> nsToDatabase n @ ''.system.indexes''"
    proof (intro allI impI)
      fix og ns ops
      assume "Ext og (CreateCollection ns ops) \<in> set t"
      with t(2) have "evBody E (nsToDatabase n) (Ext og (CreateCollection ns ops)) \<or>
          evGuard (Ext og (CreateCollection ns ops))"
        by (simp add: list_all_iff)
      with evGuard_create have "evBody E (nsToDatabase n) (Ext og (CreateCollection ns ops))"
        by blast
      from copied_not_system [OF evBody_create [OF this]]
      show "isNormal E ns \<and> coll ns \<noteq> ''system.namespaces'' \<and> coll ns \<noteq> ''system.indexes'' \<and>
            ns \<noteq> nsToDatabase n @ ''.system.namespaces'' \<and>
            ns \<noteq> nsToDatabase n @ ''.system.indexes''" .
    qed
    with t(1) show "\<exists>t. trace w1 = trace w @ t \<and>
         (\<forall>og ns ops. Ext og (CreateCollection ns ops) \<in> set t \<longrightarrow>
            isNormal E ns \<and> coll ns \<noteq> ''system.namespaces'' \<and> coll ns \<noteq> ''system.indexes'' \<and>
            ns \<noteq> nsToDatabase n @ ''.system.namespaces'' \<and>
            ns \<noteq> nsToDatabase n @ ''.system.indexes'')" by blast
  qed
  from a b show ?thesis by (intro conjI)
qed


text \<open>An environment in which the repair succeeds: the engine writes the rebuilt
  \<^verbatim>\<open>a.ns\<close> and \<^verbatim>\<open>a.0\<close> below the reserved path; the catalog lists the two system
  catalogs, a namespace that is not normal, and the collection \<^verbatim>\<open>a.c\<close>.\<close>

definition env_ok :: env where
  "env_ok = env1\<lparr>
     extEffect := (\<lambda>e f. case e of
        Ext og (GetOrCreate n p) \<Rightarrow>
          f @ [(slash p (n @ ''.ns''), File 16), (slash p (n @ ''.0''), File 32)]
      | _ \<Rightarrow> f),
     originalDatabase := Some
       [(''a.system.namespaces'',
           \<lparr>docs = [Some [(''name'', String ''a.system.indexes'')],
                    Some [(''name'', String ''a.system.namespaces'')],
                    Some [(''name'', String ''a.c$x'')],
                    Some [(''name'', String ''a.c''), (''options'', Object [])]],
            indexes = []\<rparr>),
        (''a.c'', \<lparr>docs = [Some [], Some []], indexes = [[]]\<rparr>)]\<rparr>"

text \<open>The files of database \<^verbatim>\<open>a\<close> with the data and repair directories in the
  table.\<close>

definition state_ok :: state where
  "state_ok = state1\<lparr>fs := [(''/d'', Dir), (''/r'', Dir), (''/d/a.ns'', File 16), (''/d/a.0'', File 64)]\<rparr>"

definition catalog_ok :: "BSONObj option list" where
  "catalog_ok = [Some [(''name'', String ''a.system.indexes'')],
                 Some [(''name'', String ''a.system.namespaces'')],
                 Some [(''name'', String ''a.c$x'')],
                 Some [(''name'', String ''a.c''), (''options'', Object [])]]"

fun isCreate :: "event \<Rightarrow> bool" where
  "isCreate (Ext og (CreateCollection ns ops)) = True"
| "isCreate e = False"

lemmas full_defs = repair_defs run_defs dispose_defs getField_def isSystem_def coll_def
  isSystemDotIndexes_def repairDatabase_install_def RepairFileDeleter_success_def
  replaceWithRecovered_def renameForBackup_def boostRenameWrapper_def fs_rename_def
  moveTree_def fs_copy_file_def leaf_def parent_path_def isDirectory_def

lemma run_ok:
  "\<exists>w1. repairDatabase env_ok ''a'' False False state_ok = (Ret (Status OK []), w1) \<and>
     filter isCreate (trace w1) =
       [Ext From_repairDatabase (CreateCollection ''a.c'' (CollectionOptions (Some [])))]"
  by (simp add: full_defs env_ok_def env1_def state_ok_def state1_def)

lemma scan_ok:
  "scanNamespaces env_ok catalog_ok [] w = (Ret [(''a.c'', CollectionOptions (Some []))], w)"
  by (simp add: catalog_ok_def full_defs env_ok_def env1_def)

theorem system_catalogs_never_copied_witness:
  "scanNamespaces env_ok catalog_ok [] state_ok = (Ret [(''a.c'', CollectionOptions (Some []))], state_ok)
   \<and> isNormal env_ok ''a.c'' \<and> ''a.c'' \<noteq> nsToDatabase ''a'' @ ''.system.namespaces''
   \<and> fst (repairDatabase env_ok ''a'' False False state_ok) = Ret (Status OK [])
   \<and> filter isCreate (trace (snd (repairDatabase env_ok ''a'' False False state_ok))) =
       [Ext From_repairDatabase (CreateCollection ''a.c'' (CollectionOptions (Some [])))]"
proof -
  from system_catalogs_never_copied [of env_ok catalog_ok state_ok
      "[(''a.c'', CollectionOptions (Some []))]" state_ok "''a''"] scan_ok [of state_ok]
  have "\<forall>ns \<in> fst ` set [(''a.c'', CollectionOptions (Some []))].
         isNormal env_ok ns \<and> coll ns \<noteq> ''system.namespaces'' \<and> coll ns \<noteq> ''system.indexes'' \<and>
         ns \<noteq> nsToDatabase ''a'' @ ''.system.namespaces'' \<and>
         ns \<noteq> nsToDatabase ''a'' @ ''.system.indexes''" by blast
  then have a: "isNormal env_ok ''a.c''" "''a.c'' \<noteq> nsToDatabase ''a'' @ ''.system.namespaces''"
    by simp_all
  from run_ok obtain w1 where "repairDatabase env_ok ''a'' False False state_ok = (Ret (Status OK []), w1)"
    "filter isCreate (trace w1) =
       [Ext From_repairDatabase (CreateCollection ''a.c'' (CollectionOptions (Some [])))]" by blast
  with a scan_ok [of state_ok] show ?thesis by simp
qed

section \<open>The allocator wait\<close>

text \<open>
  Claim C9.  \<^verbatim>\<open>dbSize\<close> is a run of the enumerator on the size accumulator with
  \<^verbatim>\<open>afterAllocator = false\<close>, and nothing it does waits for the file allocator.
  Renaming for backup and installing are runs of the enumerator with
  \<^verbatim>\<open>afterAllocator = true\<close>, and so is deleting when directory-per-database mode is
  off; each starts with the wait.  In directory-per-database mode deleting is no run of the
  enumerator: it waits for the allocator itself and removes the database's directory.  The
  enumerator waits exactly when \<^verbatim>\<open>afterAllocator\<close> is set.
\<close>

theorem dbSize_enumerates_without_waiting:
  "(dbSize E db w = (r, w1) \<longrightarrow>
      (\<exists>r0. applyOpToDataFiles E db (SizeAccumulator 0) False (dbpath E) w = (r0, w1) \<and>
         (\<forall>t. r = Ret t \<longrightarrow> (\<exists>sa. r0 = Ret sa \<and> FileOp_size sa = t))) \<and>
      (\<exists>tr. trace w1 = trace w @ tr \<and> (\<forall>og. Ext og WaitUntilFinished \<notin> set tr)))
   \<and> (renameForBackup E db reservedPath w = (r3, w3) \<longrightarrow>
      (\<exists>r0. applyOpToDataFiles E db
          (Renamer (if directoryperdb E then slash reservedPath db else reservedPath))
          True (dbpath E) w = (r0, w3)) \<and>
      (\<exists>tr. trace w3 = trace w @ Ext FromRenamer WaitUntilFinished # tr))
   \<and> (replaceWithRecovered E db reservedPath w = (r4, w4) \<longrightarrow>
      (\<exists>r0. applyOpToDataFiles E db
          (Replacer (if directoryperdb E then slash (dbpath E) db else dbpath E))
          True reservedPath w = (r0, w4)) \<and>
      (\<exists>tr. trace w4 = trace w @ Ext FromReplacer WaitUntilFinished # tr))
   \<and> (\<not> directoryperdb E \<and> deleteDataFiles E db w = (r2, w2) \<longrightarrow>
      (\<exists>r0. applyOpToDataFiles E db Deleter True (dbpath E) w = (r0, w2)) \<and>
      (\<exists>tr. trace w2 = trace w @ Ext FromDeleter WaitUntilFinished # tr))
   \<and> (directoryperdb E \<and> deleteDataFiles E db w = (r6, w6) \<longrightarrow>
      trace w6 = trace w @ [Ext From_deleteDataFiles WaitUntilFinished] \<or>
      trace w6 = trace w @ [Ext From_deleteDataFiles WaitUntilFinished,
                            Fs From_deleteDataFiles (RemoveAll (slash (dbpath E) db))])
   \<and> (applyOpToDataFiles E db fo afterAllocator pth w = (r5, w5) \<longrightarrow>
      (\<exists>tr. trace w5 = trace w @ tr \<and>
         (afterAllocator \<longleftrightarrow> Ext (originOf fo) WaitUntilFinished \<in> set tr)))"
proof -
  have c1: "dbSize E db w = (r, w1) \<longrightarrow>
      (\<exists>r0. applyOpToDataFiles E db (SizeAccumulator 0) False (dbpath E) w = (r0, w1) \<and>
         (\<forall>t. r = Ret t \<longrightarrow> (\<exists>sa. r0 = Ret sa \<and> FileOp_size sa = t))) \<and>
      (\<exists>tr. trace w1 = trace w @ tr \<and> (\<forall>og. Ext og WaitUntilFinished \<notin> set tr))"
  proof
    assume h: "dbSize E db w = (r, w1)"
    from bnd_split [OF h [unfolded dbSize_def]]
    have a: "\<exists>r0. applyOpToDataFiles E db (SizeAccumulator 0) False (dbpath E) w = (r0, w1) \<and>
         (\<forall>t. r = Ret t \<longrightarrow> (\<exists>sa. r0 = Ret sa \<and> FileOp_size sa = t))"
      by (auto simp: ret_eq)
    have "emits noWait (dbSize E db)"
      unfolding dbSize_def by (intro emits_bnd emits_ret applyOpToDataFiles_no_wait)
    from emitsD [OF this h]
    have b: "\<exists>tr. trace w1 = trace w @ tr \<and> (\<forall>og. Ext og WaitUntilFinished \<notin> set tr)"
      using list_all_noWait by blast
    from a b show "(\<exists>r0. applyOpToDataFiles E db (SizeAccumulator 0) False (dbpath E) w = (r0, w1) \<and>
         (\<forall>t. r = Ret t \<longrightarrow> (\<exists>sa. r0 = Ret sa \<and> FileOp_size sa = t))) \<and>
      (\<exists>tr. trace w1 = trace w @ tr \<and> (\<forall>og. Ext og WaitUntilFinished \<notin> set tr))" ..
  qed
  have c2: "renameForBackup E db reservedPath w = (r3, w3) \<longrightarrow>
      (\<exists>r0. applyOpToDataFiles E db
          (Renamer (if directoryperdb E then slash reservedPath db else reservedPath))
          True (dbpath E) w = (r0, w3)) \<and>
      (\<exists>tr. trace w3 = trace w @ Ext FromRenamer WaitUntilFinished # tr)"
  proof
    assume h: "renameForBackup E db reservedPath w = (r3, w3)"
    from bnd_split [OF h [unfolded renameForBackup_def]] obtain r0 where
      a: "applyOpToDataFiles E db
          (Renamer (if directoryperdb E then slash reservedPath db else reservedPath))
          True (dbpath E) w = (r0, w3)"
      by (auto simp: ret_eq)
    from applyOpToDataFiles_waits [OF a]
    have "\<exists>tr. trace w3 = trace w @ Ext FromRenamer WaitUntilFinished # tr" by simp
    with a show "(\<exists>r0. applyOpToDataFiles E db
          (Renamer (if directoryperdb E then slash reservedPath db else reservedPath))
          True (dbpath E) w = (r0, w3)) \<and>
      (\<exists>tr. trace w3 = trace w @ Ext FromRenamer WaitUntilFinished # tr)" by blast
  qed
  have c3: "replaceWithRecovered E db reservedPath w = (r4, w4) \<longrightarrow>
      (\<exists>r0. applyOpToDataFiles E db
          (Replacer (if directoryperdb E then slash (dbpath E) db else dbpath E))
          True reservedPath w = (r0, w4)) \<and>
      (\<exists>tr. trace w4 = trace w @ Ext FromReplacer WaitUntilFinished # tr)"
  proof
    assume h: "replaceWithRecovered E db reservedPath w = (r4, w4)"
    from bnd_split [OF h [unfolded replaceWithRecovered_def]] obtain r0 where
      a: "applyOpToDataFiles E db
          (Replacer (if directoryperdb E then slash (dbpath E) db else dbpath E))
          True reservedPath w = (r0, w4)"
      by (auto simp: ret_eq)
    from applyOpToDataFiles_waits [OF a]
    have "\<exists>tr. trace w4 = trace w @ Ext FromReplacer WaitUntilFinished # tr" by simp
    with a show "(\<exists>r0. applyOpToDataFiles E db
          (Replacer (if directoryperdb E then slash (dbpath E) db else dbpath E))
          True reservedPath w = (r0, w4)) \<and>
      (\<exists>tr. trace w4 = trace w @ Ext FromReplacer WaitUntilFinished # tr)" by blast
  qed
  have c4: "\<not> directoryperdb E \<and> deleteDataFiles E db w = (r2, w2) \<longrightarrow>
      (\<exists>r0. applyOpToDataFiles E db Deleter True (dbpath E) w = (r0, w2)) \<and>
      (\<exists>tr. trace w2 = trace w @ Ext FromDeleter WaitUntilFinished # tr)"
  proof
    assume "\<not> directoryperdb E \<and> deleteDataFiles E db w = (r2, w2)"
    then have nd: "\<not> directoryperdb E" and d: "deleteDataFiles E db w = (r2, w2)" by simp_all
    from d nd
    have b: "bnd (applyOpToDataFiles E db Deleter True (dbpath E)) (\<lambda>_. ret ()) w = (r2, w2)"
      by (simp add: deleteDataFiles_def)
    from bnd_split [OF b] obtain r0 where
      a: "applyOpToDataFiles E db Deleter True (dbpath E) w = (r0, w2)"
      by (auto simp: ret_eq)
    from applyOpToDataFiles_waits [OF a]
    have "\<exists>tr. trace w2 = trace w @ Ext FromDeleter WaitUntilFinished # tr" by simp
    with a show "(\<exists>r0. applyOpToDataFiles E db Deleter True (dbpath E) w = (r0, w2)) \<and>
      (\<exists>tr. trace w2 = trace w @ Ext FromDeleter WaitUntilFinished # tr)" by blast
  qed
  have c5: "directoryperdb E \<and> deleteDataFiles E db w = (r6, w6) \<longrightarrow>
      trace w6 = trace w @ [Ext From_deleteDataFiles WaitUntilFinished] \<or>
      trace w6 = trace w @ [Ext From_deleteDataFiles WaitUntilFinished,
                            Fs From_deleteDataFiles (RemoveAll (slash (dbpath E) db))]"
  proof
    assume "directoryperdb E \<and> deleteDataFiles E db w = (r6, w6)"
    then have pd: "directoryperdb E" and d: "deleteDataFiles E db w = (r6, w6)" by simp_all
    from d pd have b: "bnd (extCall E From_deleteDataFiles WaitUntilFinished)
          (\<lambda>_. assertOnException
                 (fs_remove_all E From_deleteDataFiles (slash (dbpath E) db))) w = (r6, w6)"
      by (simp add: deleteDataFiles_def)
    from b show "trace w6 = trace w @ [Ext From_deleteDataFiles WaitUntilFinished] \<or>
      trace w6 = trace w @ [Ext From_deleteDataFiles WaitUntilFinished,
                            Fs From_deleteDataFiles (RemoveAll (slash (dbpath E) db))]"
    proof (cases rule: bnd_cases)
      case (go x w0)
      from assertOnException_split [OF go(2)] obtain r0 where
        "fs_remove_all E From_deleteDataFiles (slash (dbpath E) db) w0 = (r0, w6)" by blast
      from fsCall_trace [OF this [unfolded fs_remove_all_def]] extCall_trace [OF go(1)]
      show ?thesis by simp
    next
      case (stop r0)
      from extCall_trace [OF stop(1)] show ?thesis by simp
    qed
  qed
  have c6: "applyOpToDataFiles E db fo afterAllocator pth w = (r5, w5) \<longrightarrow>
      (\<exists>tr. trace w5 = trace w @ tr \<and>
         (afterAllocator \<longleftrightarrow> Ext (originOf fo) WaitUntilFinished \<in> set tr))"
  proof
    assume h: "applyOpToDataFiles E db fo afterAllocator pth w = (r5, w5)"
    show "\<exists>tr. trace w5 = trace w @ tr \<and>
         (afterAllocator \<longleftrightarrow> Ext (originOf fo) WaitUntilFinished \<in> set tr)"
    proof (cases afterAllocator)
      case True
      with applyOpToDataFiles_waits h show ?thesis by fastforce
    next
      case False
      with h have "applyOpToDataFiles E db fo False pth w = (r5, w5)" by simp
      from emitsD [OF applyOpToDataFiles_no_wait this] obtain tr where
        tr: "trace w5 = trace w @ tr" "list_all noWait tr" by blast
      from list_all_noWait [OF tr(2)] have "Ext (originOf fo) WaitUntilFinished \<notin> set tr" .
      with tr(1) False show ?thesis by blast
    qed
  qed
  from c1 c2 c3 c4 c5 c6 show ?thesis by (intro conjI)
qed

theorem dbSize_enumerates_without_waiting_witness:
  "fst (dbSize env1 ''a'' state1) = Ret 80
   \<and> fst (bnd (extCall env1 FromSizeAccumulator WaitUntilFinished) (\<lambda>_. dbSize env1 ''a'')
          state1) = Ret 144
   \<and> applyOpToDataFiles env1 ''a'' (SizeAccumulator 0) False ''/d'' state1 =
       (Ret (SizeAccumulator 80), snd (dbSize env1 ''a'' state1))
   \<and> (\<exists>tr. trace (snd (dbSize env1 ''a'' state1)) = trace state1 @ tr \<and>
          (\<forall>og. Ext og WaitUntilFinished \<notin> set tr))"
proof -
  have a: "fst (dbSize env1 ''a'' state1) = Ret 80"
    by (simp add: dbSize_def run_defs env1_def state1_def)
  have b: "fst (bnd (extCall env1 FromSizeAccumulator WaitUntilFinished) (\<lambda>_. dbSize env1 ''a'')
          state1) = Ret 144"
    by (simp add: dbSize_def run_defs env1_def state1_def)
  have d: "fst (applyOpToDataFiles env1 ''a'' (SizeAccumulator 0) False ''/d'' state1) =
      Ret (SizeAccumulator 80)"
    by (simp add: run_defs env1_def state1_def)
  have p: "dbpath env1 = ''/d''" by (simp add: env1_def)
  from a have c: "dbSize env1 ''a'' state1 = (Ret 80, snd (dbSize env1 ''a'' state1))"
    by (cases "dbSize env1 ''a'' state1") simp
  from conjunct1 [OF dbSize_enumerates_without_waiting [of env1 "''a''" state1 "Ret 80"
      "snd (dbSize env1 ''a'' state1)"]] c
  have "(\<exists>r0. applyOpToDataFiles env1 ''a'' (SizeAccumulator 0) False (dbpath env1) state1 =
          (r0, snd (dbSize env1 ''a'' state1)) \<and>
         (\<forall>t. Ret 80 = Ret t \<longrightarrow> (\<exists>sa. r0 = Ret sa \<and> FileOp_size sa = t))) \<and>
      (\<exists>tr. trace (snd (dbSize env1 ''a'' state1)) = trace state1 @ tr \<and>
          (\<forall>og. Ext og WaitUntilFinished \<notin> set tr))" by (rule mp)
  then have e0: "\<exists>r0. applyOpToDataFiles env1 ''a'' (SizeAccumulator 0) False (dbpath env1) state1 =
          (r0, snd (dbSize env1 ''a'' state1)) \<and>
         (\<forall>t. Ret 80 = Ret t \<longrightarrow> (\<exists>sa. r0 = Ret sa \<and> FileOp_size sa = t))"
    and f: "\<exists>tr. trace (snd (dbSize env1 ''a'' state1)) = trace state1 @ tr \<and>
          (\<forall>og. Ext og WaitUntilFinished \<notin> set tr)" by (rule conjunct1, rule conjunct2)
  from e0 obtain r0 where
    e: "applyOpToDataFiles env1 ''a'' (SizeAccumulator 0) False (dbpath env1) state1 =
          (r0, snd (dbSize env1 ''a'' state1))" by (elim exE conjE)
  from e have "fst (applyOpToDataFiles env1 ''a'' (SizeAccumulator 0) False ''/d'' state1) = r0"
    by (simp only: p fst_conv)
  with d have "r0 = Ret (SizeAccumulator 80)" by (simp only:)
  with e have g: "applyOpToDataFiles env1 ''a'' (SizeAccumulator 0) False ''/d'' state1 =
       (Ret (SizeAccumulator 80), snd (dbSize env1 ''a'' state1))" by (simp only: p)
  from a b g f show ?thesis by (intro conjI)
qed

text \<open>The files of database \<^verbatim>\<open>a\<close> in directory-per-database mode.\<close>

definition state_perdb :: state where
  "state_perdb = \<lparr>fs = [(''/d/a'', Dir), (''/d/a/a.ns'', File 16), (''/d/a/a.0'', File 64)],
     inDBRepair = False, trace = [], repairFileDeleter = None\<rparr>"

text \<open>Claim C9 as stated fails: in directory-per-database mode the files are deleted by
  one recursive removal, and the enumerator, which would remove \<^verbatim>\<open>a.ns\<close> first, is
  not run.\<close>

theorem perdb_delete_bypasses_enumerator_counterexample:
  "directoryperdb (env1\<lparr>directoryperdb := True\<rparr>)
   \<and> deleteDataFiles (env1\<lparr>directoryperdb := True\<rparr>) ''a'' state_perdb =
       (Ret (), state_perdb\<lparr>fs := [(''/d/a.1'', File 64)],
          trace := [Ext From_deleteDataFiles WaitUntilFinished,
                    Fs From_deleteDataFiles (RemoveAll ''/d/a'')]\<rparr>)
   \<and> take 3 (trace (snd (applyOpToDataFiles (env1\<lparr>directoryperdb := True\<rparr>) ''a'' Deleter True ''/d''
        state_perdb))) =
       [Ext FromDeleter WaitUntilFinished, Fs FromDeleter (Remove ''/d/a/a.ns''),
        Applied FromDeleter ''/d/a/a.ns'' True]
   \<and> (\<forall>r0. applyOpToDataFiles (env1\<lparr>directoryperdb := True\<rparr>) ''a'' Deleter True ''/d'' state_perdb
        \<noteq> (r0, snd (deleteDataFiles (env1\<lparr>directoryperdb := True\<rparr>) ''a'' state_perdb)))"
proof -
  have a: "deleteDataFiles (env1\<lparr>directoryperdb := True\<rparr>) ''a'' state_perdb =
       (Ret (), state_perdb\<lparr>fs := [(''/d/a.1'', File 64)],
          trace := [Ext From_deleteDataFiles WaitUntilFinished,
                    Fs From_deleteDataFiles (RemoveAll ''/d/a'')]\<rparr>)"
    by (simp add: deleteDataFiles_def fs_remove_all_def fs_remove_def eraseTree_def erase_def isUnder_def hasChildren_def run_defs env1_def state_perdb_def)
  have b: "take 3 (trace (snd (applyOpToDataFiles (env1\<lparr>directoryperdb := True\<rparr>) ''a'' Deleter True ''/d''
        state_perdb))) =
       [Ext FromDeleter WaitUntilFinished, Fs FromDeleter (Remove ''/d/a/a.ns''),
        Applied FromDeleter ''/d/a/a.ns'' True]"
    by (simp add: deleteDataFiles_def fs_remove_all_def fs_remove_def eraseTree_def erase_def isUnder_def hasChildren_def run_defs env1_def state_perdb_def)
  from a b have c: "\<forall>r0. applyOpToDataFiles (env1\<lparr>directoryperdb := True\<rparr>) ''a'' Deleter True ''/d''
      state_perdb \<noteq> (r0, snd (deleteDataFiles (env1\<lparr>directoryperdb := True\<rparr>) ''a'' state_perdb))"
    by (auto simp: state_perdb_def)
  from a b c show ?thesis by simp
qed

section \<open>A catalog entry whose options do not parse\<close>

















section \<open>The order of disposal, commit and installation\<close>






definition disposalStart :: "env \<Rightarrow> bool \<Rightarrow> event" where
  "disposalStart E bk =
     (if bk then Ext FromRenamer WaitUntilFinished
      else if directoryperdb E then Ext From_deleteDataFiles WaitUntilFinished
      else Ext FromDeleter WaitUntilFinished)"


lemma isDisposal_start: "isDisposal (disposalStart E bk)"
  by (simp add: disposalStart_def isDisposal_def fileOpEvent_def)







end
